theory Spec2Isabelle
  imports Main
begin

section \<open>Exceptions\<close>

text \<open>
  Every failure of \<^verbatim>\<open>encoder.py\<close> is a Python exception. The arguments a
  \<^verbatim>\<open>ValueError\<close> is raised with tell the raise sites apart: the batch-capacity check
  and the question-length check carry a message built from two numbers, the span range check
  carries the offending end index, the remaining checks carry nothing; \<open>NumpyMsg\<close>
  stands for a \<^verbatim>\<open>ValueError\<close> raised inside numpy (an empty reduction, an empty random
  range, a negative dimension).
\<close>

datatype value_error_args =
    NoArgs
  | BatchSizeMsg nat nat
  | QuesLenMsg nat nat
  | IntArg int
  | NumpyMsg

datatype error =
    ValueError value_error_args
  | NotImplementedError
  | IndexError
  | AttributeError
  | TypeError

section \<open>Data model\<close>

text \<open>
  A span is an inclusive pair of word indices; numpy integers may be negative.
  \<open>ParagraphSpans\<close> and \<open>TriviaQaAnswer\<close> are the two answer classes the encoders
  dispatch on with \<^verbatim>\<open>isinstance\<close>; \<open>OtherAnswer\<close> is any object of another class.
\<close>

type_synonym span = "int \<times> int"

datatype answer =
    ParagraphSpans "span list"
  | TriviaQaAnswer "span list"
  | OtherAnswer

record ParagraphAndQuestion =
  question :: "string list"
  para_context :: "string list list"
  answer :: "answer option"

section \<open>numpy and Python primitives\<close>

text \<open>Integer indexing of an axis of size \<open>n\<close>: negative indices count from the end.\<close>

definition np_index :: "nat \<Rightarrow> int \<Rightarrow> nat option" where
  "np_index n i =
     (if 0 \<le> i \<and> i < int n then Some (nat i)
      else if - int n \<le> i \<and> i < 0 then Some (nat (i + int n))
      else None)"

text \<open>\<^verbatim>\<open>row[idxs] = v\<close> for an integer index array \<open>idxs\<close>.\<close>

fun set_indices :: "'a \<Rightarrow> int list \<Rightarrow> 'a list \<Rightarrow> error + 'a list" where
  "set_indices v [] row = Inr row"
| "set_indices v (i # idxs) row =
     (case np_index (length row) i of
        None \<Rightarrow> Inl IndexError
      | Some k \<Rightarrow> set_indices v idxs (row[k := v]))"

text \<open>\<^verbatim>\<open>arr[doc_ix, idxs] = v\<close> on a two-dimensional array.\<close>

definition set_row_indices :: "'a \<Rightarrow> nat \<Rightarrow> int list \<Rightarrow> 'a list list \<Rightarrow> error + 'a list list" where
  "set_row_indices v doc_ix idxs arr =
     (if length arr \<le> doc_ix then Inl IndexError
      else case set_indices v idxs (arr ! doc_ix) of
             Inl e \<Rightarrow> Inl e
           | Inr row \<Rightarrow> Inr (arr[doc_ix := row]))"

text \<open>\<^verbatim>\<open>for i, x in enumerate(xs): body\<close>, where the body may raise.\<close>

fun for_enumerate :: "(nat \<Rightarrow> 'a \<Rightarrow> 's \<Rightarrow> error + 's) \<Rightarrow> nat \<Rightarrow> 'a list \<Rightarrow> 's \<Rightarrow> error + 's" where
  "for_enumerate body i [] s = Inr s"
| "for_enumerate body i (x # xs) s =
     (case body i x s of
        Inl e \<Rightarrow> Inl e
      | Inr s' \<Rightarrow> for_enumerate body (Suc i) xs s')"

text \<open>
  The state of numpy's global random generator is the sequence of its future raw draws.
  \<^verbatim>\<open>np.random.randint(0, n)\<close> returns a number below \<open>n\<close> and advances the generator; it
  raises \<^verbatim>\<open>ValueError\<close> when the range is empty.
\<close>

type_synonym rng = "nat \<Rightarrow> nat"

definition randint :: "nat \<Rightarrow> rng \<Rightarrow> error + (nat \<times> rng)" where
  "randint n g =
     (if n = 0 then Inl (ValueError NumpyMsg)
      else Inr (g 0 mod n, \<lambda>i. g (Suc i)))"

section \<open>SingleSpanAnswerEncoder\<close>

text \<open>Lines 47 to 63 of \<^verbatim>\<open>encode\<close>: the choice of one gold span of an example.\<close>

definition select_span :: "nat list \<Rightarrow> nat \<Rightarrow> answer option \<Rightarrow> rng \<Rightarrow> error + (span \<times> rng)" where
  "select_span context_len doc_ix ans g =
     (case ans of
        None \<Rightarrow> Inl (ValueError NoArgs)
      | Some (ParagraphSpans spans) \<Rightarrow>
          (case randint (length spans) g of
             Inl e \<Rightarrow> Inl e
           | Inr (r, g') \<Rightarrow> Inr (spans ! r, g'))
      | Some (TriviaQaAnswer spans) \<Rightarrow>
          (if length context_len \<le> doc_ix then Inl IndexError
           else
             let candidates =
                   filter (\<lambda>i. snd (spans ! i) < int (context_len ! doc_ix)) [0..<length spans]
             in if length candidates = 0 then Inl (ValueError NoArgs)
                else (case randint (length candidates) g of
                        Inl e \<Rightarrow> Inl e
                      | Inr (r, g') \<Rightarrow> Inr (spans ! (candidates ! r), g')))
      | Some OtherAnswer \<Rightarrow> Inl NotImplementedError)"

text \<open>The body of the loop over the batch: selection, validation, the two writes.\<close>

definition single_span_doc ::
  "nat list \<Rightarrow> nat \<Rightarrow> ParagraphAndQuestion \<Rightarrow> int list list \<times> rng \<Rightarrow> error + (int list list \<times> rng)" where
  "single_span_doc context_len doc_ix doc st =
     (case st of (answer_spans, g) \<Rightarrow>
        (case select_span context_len doc_ix (answer doc) g of
           Inl e \<Rightarrow> Inl e
         | Inr ((word_start, word_end), g') \<Rightarrow>
             if word_start > word_end then Inl (ValueError NoArgs)
             else if length context_len \<le> doc_ix then Inl IndexError
             else if word_end \<ge> int (context_len ! doc_ix) then Inl (ValueError (IntArg word_end))
             else if length answer_spans \<le> doc_ix then Inl IndexError
             else Inr (answer_spans[doc_ix := [word_start, word_end]], g')))"

definition single_span_encode ::
  "nat \<Rightarrow> nat list \<Rightarrow> nat \<Rightarrow> ParagraphAndQuestion list \<Rightarrow> rng \<Rightarrow> error + (int list list \<times> rng)" where
  "single_span_encode batch_size context_len context_word_dim batch g =
     for_enumerate (single_span_doc context_len) 0 batch (replicate batch_size [0, 0], g)"

section \<open>DenseMultiSpanAnswerEncoder\<close>

text \<open>
  The attribute \<^verbatim>\<open>answer_spans\<close> of an answer object: the array of its gold spans, one
  row per span. An object of another class has no such attribute.
\<close>

definition answer_spans :: "answer \<Rightarrow> error + span list" where
  "answer_spans a =
     (case a of
        ParagraphSpans spans \<Rightarrow> Inr spans
      | TriviaQaAnswer spans \<Rightarrow> Inr spans
      | OtherAnswer \<Rightarrow> Inl AttributeError)"

definition dense_doc ::
  "nat \<Rightarrow> nat \<Rightarrow> ParagraphAndQuestion \<Rightarrow> bool list list \<times> bool list list
     \<Rightarrow> error + (bool list list \<times> bool list list)" where
  "dense_doc context_word_dim doc_ix doc st =
     (case st of (answer_starts, answer_ends) \<Rightarrow>
        (case answer doc of
           None \<Rightarrow> Inr (answer_starts, answer_ends)
         | Some a \<Rightarrow>
             (case answer_spans a of
                Inl e \<Rightarrow> Inl e
              | Inr spans \<Rightarrow>
                  let kept = filter (\<lambda>sp. snd sp < int context_word_dim) spans in
                  (case set_row_indices True doc_ix (map fst kept) answer_starts of
                     Inl e \<Rightarrow> Inl e
                   | Inr answer_starts' \<Rightarrow>
                       (case set_row_indices True doc_ix (map snd kept) answer_ends of
                          Inl e \<Rightarrow> Inl e
                        | Inr answer_ends' \<Rightarrow> Inr (answer_starts', answer_ends'))))))"

definition dense_encode ::
  "nat \<Rightarrow> nat list \<Rightarrow> nat \<Rightarrow> ParagraphAndQuestion list \<Rightarrow> error + (bool list list \<times> bool list list)" where
  "dense_encode batch_size context_len context_word_dim batch =
     for_enumerate (dense_doc context_word_dim) 0 batch
       (replicate batch_size (replicate context_word_dim False),
        replicate batch_size (replicate context_word_dim False))"

section \<open>PackedMultiSpanAnswerEncoder\<close>

text \<open>
  Modelled from the spec: \<^verbatim>\<open>to_packed_coordinates_np\<close> is imported from
  \<^verbatim>\<open>nn.span_prediction\<close>, which is not among the sources. The spec gives its contract
  as a function \<open>pack(start, end, context_length, bound)\<close> of one span to one integer; the
  function is a parameter here, applied to every row of the span array.
\<close>

definition to_packed_coordinates_np ::
  "(int \<Rightarrow> int \<Rightarrow> int \<Rightarrow> int \<Rightarrow> int) \<Rightarrow> span list \<Rightarrow> int \<Rightarrow> int \<Rightarrow> int list" where
  "to_packed_coordinates_np pack spans l bound = map (\<lambda>sp. pack (fst sp) (snd sp) l bound) spans"

definition packed_doc ::
  "(int \<Rightarrow> int \<Rightarrow> int \<Rightarrow> int \<Rightarrow> int) \<Rightarrow> int \<Rightarrow> nat \<Rightarrow> nat \<Rightarrow> ParagraphAndQuestion
     \<Rightarrow> bool list list \<Rightarrow> error + bool list list" where
  "packed_doc pack bound context_word_dim doc_ix doc output =
     (case answer doc of
        None \<Rightarrow> Inl AttributeError
      | Some a \<Rightarrow>
          (case answer_spans a of
             Inl e \<Rightarrow> Inl e
           | Inr spans \<Rightarrow>
               set_row_indices True doc_ix
                 (to_packed_coordinates_np pack spans (int context_word_dim) bound) output))"

definition packed_size :: "(int \<Rightarrow> int \<Rightarrow> int \<Rightarrow> int \<Rightarrow> int) \<Rightarrow> int \<Rightarrow> nat \<Rightarrow> int" where
  "packed_size pack bound context_word_dim =
     hd (to_packed_coordinates_np pack
           [(int context_word_dim - bound, int context_word_dim - 1)] (int context_word_dim) bound) + 1"

definition packed_encode ::
  "(int \<Rightarrow> int \<Rightarrow> int \<Rightarrow> int \<Rightarrow> int) \<Rightarrow> int \<Rightarrow> nat \<Rightarrow> nat list \<Rightarrow> nat \<Rightarrow> ParagraphAndQuestion list
     \<Rightarrow> error + bool list list" where
  "packed_encode pack bound batch_size context_len context_word_dim batch =
     (let sz = packed_size pack bound context_word_dim in
      if sz < 0 then Inl (ValueError NumpyMsg)
      else for_enumerate (packed_doc pack bound context_word_dim) 0 batch
             (replicate (length batch) (replicate (nat sz) False)))"

section \<open>External collaborators\<close>

text \<open>
  The word embedder resolves a token to an index, negative when the token is unknown, and
  issues placeholder indices; issuing one may change the embedder's own state \<open>'s\<close>, which
  is passed through. The character embedder resolves one character. The featurizer returns one
  row of \<open>'f\<close> features per question token and per context token.
\<close>

record 's WordEmbedder =
  question_word_to_ix :: "string \<Rightarrow> int"
  context_word_to_ix :: "string \<Rightarrow> int"
  get_placeholder :: "int \<Rightarrow> bool \<Rightarrow> 's \<Rightarrow> int \<times> 's"

record CharEmbedder =
  char_to_ix :: "char \<Rightarrow> int"

record 'f QaTextFeautrizer =
  n_question_features :: nat
  n_context_features :: nat
  get_features :: "string list \<Rightarrow> string list \<Rightarrow> 'f list list \<times> 'f list list"

section \<open>DocumentAndQuestionEncoder\<close>

datatype AnswerEncoder =
    SingleSpanAnswerEncoder
  | DenseMultiSpanAnswerEncoder
  | PackedMultiSpanAnswerEncoder int

text \<open>
  The attributes \<^verbatim>\<open>encode\<close> reads, as \<^verbatim>\<open>__init__\<close> and \<^verbatim>\<open>init\<close> leave them. Dimensions
  and thresholds are sizes, hence natural numbers; \<open>None\<close> is an absent bound.
\<close>

record ('s, 'f) encoder =
  answer_encoder :: AnswerEncoder
  sent_size_th :: "nat option"
  word_featurizer :: "'f QaTextFeautrizer option"
  word_embedder :: "'s WordEmbedder option"
  char_emb :: "CharEmbedder option"
  len_opt :: bool
  batch_size :: "nat option"
  max_context_word_dim :: "nat option"
  max_ques_word_dim :: "nat option"
  max_char_dim :: nat

text \<open>The target arrays of the three answer encoders, under the placeholders they feed.\<close>

datatype answer_feed =
    AnswerSpans "int list list"
  | AnswerStartsEnds "bool list list" "bool list list"
  | CorrectSpans "bool list list"

text \<open>
  The feed dictionary: one entry per placeholder, absent when the source does not store
  one.
\<close>

record 'f feed =
  fd_context_len :: "nat list"
  fd_question_len :: "nat list"
  fd_context_words :: "int list list option"
  fd_question_words :: "int list list option"
  fd_context_chars :: "int list list list option"
  fd_question_chars :: "int list list list option"
  fd_answer :: answer_feed
  fd_context_features :: "'f list list list option"
  fd_question_features :: "'f list list list option"

text \<open>\<^verbatim>\<open>str.lower\<close> on ASCII tokens.\<close>

definition lower :: "string \<Rightarrow> string" where
  "lower w =
     map (\<lambda>c. let n = (of_char c :: nat) in if 65 \<le> n \<and> n \<le> 90 then char_of (n + 32) else c) w"

text \<open>\<^verbatim>\<open>a.max()\<close> of a one-dimensional array: an empty array has no maximum.\<close>

fun np_max :: "nat list \<Rightarrow> error + nat" where
  "np_max [] = Inl (ValueError NumpyMsg)"
| "np_max (x # xs) = Inr (fold max xs x)"

text \<open>\<^verbatim>\<open>arr[i, j] = v\<close> and \<^verbatim>\<open>arr[i, j, k] = v\<close> with indices counted by \<^verbatim>\<open>enumerate\<close>.\<close>

definition set2 :: "nat \<Rightarrow> nat \<Rightarrow> 'a \<Rightarrow> 'a list list \<Rightarrow> error + 'a list list" where
  "set2 i j v arr =
     (if i < length arr \<and> j < length (arr ! i)
      then Inr (arr[i := (arr ! i)[j := v]])
      else Inl IndexError)"

definition set3 :: "nat \<Rightarrow> nat \<Rightarrow> nat \<Rightarrow> 'a \<Rightarrow> 'a list list list \<Rightarrow> error + 'a list list list" where
  "set3 i j k v arr =
     (if i < length arr \<and> j < length (arr ! i) \<and> k < length (arr ! i ! j)
      then Inr (arr[i := (arr ! i)[j := (arr ! i ! j)[k := v]]])
      else Inl IndexError)"

text \<open>
  The variables the loop over the batch updates: the placeholder table of the current example,
  the embedder's state and the four buffers. A buffer the source leaves as \<open>None\<close> (no
  embedder of its kind) is never read or written; it is the empty list here.
\<close>

record 's fill_state =
  placeholders :: "string \<rightharpoonup> int"
  emb_state :: 's
  question_words :: "int list list"
  question_chars :: "int list list list"
  context_words :: "int list list"
  context_chars :: "int list list list"

text \<open>
  Lines 279 to 286 and 303 to 310: the index written for a word. An unknown word takes the
  entry of its lowercased form in the placeholder table, or a new placeholder that is then
  recorded there.
\<close>

definition resolve ::
  "(string \<Rightarrow> int) \<Rightarrow> (int \<Rightarrow> bool \<Rightarrow> 's \<Rightarrow> int \<times> 's) \<Rightarrow> bool \<Rightarrow> string
     \<Rightarrow> (string \<rightharpoonup> int) \<Rightarrow> 's \<Rightarrow> int \<times> (string \<rightharpoonup> int) \<times> 's" where
  "resolve word_to_ix new_placeholder is_train word table s =
     (let ix = word_to_ix word in
      if ix < 0 then
        (let wl = lower word in
         case table wl of
           Some p \<Rightarrow> (p, table, s)
         | None \<Rightarrow> (case new_placeholder ix is_train s of (p, s') \<Rightarrow> (p, table(wl \<mapsto> p), s')))
      else (ix, table, s))"

text \<open>The loop over the characters of a word, left at \<open>max_char_dim\<close> characters.\<close>

fun fill_chars ::
  "(char \<Rightarrow> int) \<Rightarrow> nat \<Rightarrow> nat \<Rightarrow> nat \<Rightarrow> nat \<Rightarrow> string \<Rightarrow> int list list list
     \<Rightarrow> error + int list list list" where
  "fill_chars to_ix char_dim doc_ix word_ix char_ix [] arr = Inr arr"
| "fill_chars to_ix char_dim doc_ix word_ix char_ix (c # cs) arr =
     (if char_ix = char_dim then Inr arr
      else case set3 doc_ix word_ix char_ix (to_ix c) arr of
             Inl e \<Rightarrow> Inl e
           | Inr arr' \<Rightarrow> fill_chars to_ix char_dim doc_ix word_ix (Suc char_ix) cs arr')"

text \<open>The body of the loop over the question's words (lines 278 to 293).\<close>

definition question_word_body ::
  "('s, 'f) encoder \<Rightarrow> bool \<Rightarrow> nat \<Rightarrow> nat \<Rightarrow> string \<Rightarrow> 's fill_state \<Rightarrow> error + 's fill_state" where
  "question_word_body self is_train doc_ix word_ix word st =
     (case (case word_embedder self of
              None \<Rightarrow> Inr st
            | Some we \<Rightarrow>
                (case resolve (question_word_to_ix we) (get_placeholder we) is_train word
                        (placeholders st) (emb_state st) of
                   (ix, table, s) \<Rightarrow>
                     (case set2 doc_ix word_ix ix (question_words st) of
                        Inl e \<Rightarrow> Inl e
                      | Inr arr \<Rightarrow>
                          Inr (st\<lparr>placeholders := table, emb_state := s, question_words := arr\<rparr>)))) of
        Inl e \<Rightarrow> Inl e
      | Inr st1 \<Rightarrow>
          (case char_emb self of
             None \<Rightarrow> Inr st1
           | Some ce \<Rightarrow>
               (case fill_chars (char_to_ix ce) (max_char_dim self) doc_ix word_ix 0 word
                       (question_chars st1) of
                  Inl e \<Rightarrow> Inl e
                | Inr arr \<Rightarrow> Inr (st1\<lparr>question_chars := arr\<rparr>))))"

text \<open>The body of the loop over the words of a sentence, after its guard (lines 302 to 319).\<close>

definition context_word_body ::
  "('s, 'f) encoder \<Rightarrow> bool \<Rightarrow> nat \<Rightarrow> nat \<Rightarrow> string \<Rightarrow> 's fill_state \<Rightarrow> error + 's fill_state" where
  "context_word_body self is_train doc_ix word_ix word st =
     (case (case word_embedder self of
              None \<Rightarrow> Inr st
            | Some we \<Rightarrow>
                (case resolve (context_word_to_ix we) (get_placeholder we) is_train word
                        (placeholders st) (emb_state st) of
                   (ix, table, s) \<Rightarrow>
                     (case set2 doc_ix word_ix ix (context_words st) of
                        Inl e \<Rightarrow> Inl e
                      | Inr arr \<Rightarrow>
                          Inr (st\<lparr>placeholders := table, emb_state := s, context_words := arr\<rparr>)))) of
        Inl e \<Rightarrow> Inl e
      | Inr st1 \<Rightarrow>
          (case char_emb self of
             None \<Rightarrow> Inr st1
           | Some ce \<Rightarrow>
               (case fill_chars (char_to_ix ce) (max_char_dim self) doc_ix word_ix 0 word
                       (context_chars st1) of
                  Inl e \<Rightarrow> Inl e
                | Inr arr \<Rightarrow> Inr (st1\<lparr>context_chars := arr\<rparr>))))"

text \<open>
  The loop over the words of one sentence: it is left when the running word count equals
  \<open>max_context_word_dim\<close>; the count goes on to the next sentence.
\<close>

fun fill_sentence ::
  "('s, 'f) encoder \<Rightarrow> bool \<Rightarrow> nat \<Rightarrow> string list \<Rightarrow> nat \<times> 's fill_state
     \<Rightarrow> error + (nat \<times> 's fill_state)" where
  "fill_sentence self is_train doc_ix [] (word_ix, st) = Inr (word_ix, st)"
| "fill_sentence self is_train doc_ix (word # sent) (word_ix, st) =
     (if Some word_ix = max_context_word_dim self then Inr (word_ix, st)
      else case context_word_body self is_train doc_ix word_ix word st of
             Inl e \<Rightarrow> Inl e
           | Inr st' \<Rightarrow> fill_sentence self is_train doc_ix sent (Suc word_ix, st'))"

text \<open>The loop over the sentences of the context, left at sentence \<open>sent_size_th\<close>.\<close>

fun fill_context ::
  "('s, 'f) encoder \<Rightarrow> bool \<Rightarrow> nat \<Rightarrow> nat \<Rightarrow> string list list \<Rightarrow> nat \<times> 's fill_state
     \<Rightarrow> error + (nat \<times> 's fill_state)" where
  "fill_context self is_train doc_ix sent_ix [] ws = Inr ws"
| "fill_context self is_train doc_ix sent_ix (sent # sents) ws =
     (if sent_size_th self = Some sent_ix then Inr ws
      else case fill_sentence self is_train doc_ix sent ws of
             Inl e \<Rightarrow> Inl e
           | Inr ws' \<Rightarrow> fill_context self is_train doc_ix (Suc sent_ix) sents ws')"

text \<open>The body of the loop over the batch (lines 275 to 319).\<close>

definition encode_doc ::
  "('s, 'f) encoder \<Rightarrow> bool \<Rightarrow> nat \<Rightarrow> ParagraphAndQuestion \<Rightarrow> 's fill_state \<Rightarrow> error + 's fill_state" where
  "encode_doc self is_train doc_ix doc st =
     (case for_enumerate (question_word_body self is_train doc_ix) 0 (question doc)
             (st\<lparr>placeholders := Map.empty\<rparr>) of
        Inl e \<Rightarrow> Inl e
      | Inr st1 \<Rightarrow>
          (case fill_context self is_train doc_ix 0 (para_context doc) (0, st1) of
             Inl e \<Rightarrow> Inl e
           | Inr (word_ix, st2) \<Rightarrow> Inr st2))"

text \<open>Lines 225 to 230: the number of rows of the buffers.\<close>

definition padded_batch_size :: "nat option \<Rightarrow> nat \<Rightarrow> (nat \<Rightarrow> value_error_args) \<Rightarrow> error + nat" where
  "padded_batch_size fixed n args =
     (case fixed of
        None \<Rightarrow> Inr n
      | Some b \<Rightarrow> if b < n then Inl (ValueError (args b)) else Inr b)"

text \<open>
  Lines 237 to 243: the context lengths and the context dimension. In training with a maximum
  the lengths are clipped; otherwise they are the true lengths and the dimension is their
  maximum, whatever \<open>max_context_word_dim\<close> says.
\<close>

definition context_lengths ::
  "('s, 'f) encoder \<Rightarrow> bool \<Rightarrow> ParagraphAndQuestion list \<Rightarrow> error + (nat list \<times> nat)" where
  "context_lengths self is_train batch =
     (case (if is_train then max_context_word_dim self else None) of
        Some m \<Rightarrow>
          Inr (map (\<lambda>doc. min (sum_list (map length (para_context doc))) m) batch, m)
      | None \<Rightarrow>
          (let context_len = map (\<lambda>doc. sum_list (map length (para_context doc))) batch in
           case np_max context_len of
             Inl e \<Rightarrow> Inl e
           | Inr m \<Rightarrow> Inr (context_len, m)))"

text \<open>Lines 247 to 249 and 253 to 254: the question dimension.\<close>

definition question_dim :: "nat option \<Rightarrow> nat list \<Rightarrow> error + nat" where
  "question_dim fixed question_len =
     (case fixed of
        None \<Rightarrow> np_max question_len
      | Some q \<Rightarrow>
          (case np_max question_len of
             Inl e \<Rightarrow> Inl e
           | Inr m \<Rightarrow> if q < m then Inl (ValueError (QuesLenMsg m q)) else Inr q))"

text \<open>The answer encoder the encoder was built with, called on the batch (line 321).\<close>

definition answer_encode ::
  "(int \<Rightarrow> int \<Rightarrow> int \<Rightarrow> int \<Rightarrow> int) \<Rightarrow> AnswerEncoder \<Rightarrow> nat \<Rightarrow> nat list \<Rightarrow> nat
     \<Rightarrow> ParagraphAndQuestion list \<Rightarrow> rng \<Rightarrow> error + (answer_feed \<times> rng)" where
  "answer_encode pack enc n context_len context_word_dim batch g =
     (case enc of
        SingleSpanAnswerEncoder \<Rightarrow>
          (case single_span_encode n context_len context_word_dim batch g of
             Inl e \<Rightarrow> Inl e
           | Inr (spans, g') \<Rightarrow> Inr (AnswerSpans spans, g'))
      | DenseMultiSpanAnswerEncoder \<Rightarrow>
          (case dense_encode n context_len context_word_dim batch of
             Inl e \<Rightarrow> Inl e
           | Inr (starts, ends) \<Rightarrow> Inr (AnswerStartsEnds starts ends, g))
      | PackedMultiSpanAnswerEncoder bound \<Rightarrow>
          (case packed_encode pack bound n context_len context_word_dim batch of
             Inl e \<Rightarrow> Inl e
           | Inr output \<Rightarrow> Inr (CorrectSpans output, g)))"

text \<open>Lines 327 to 331: the sentences before \<open>sent_size_th\<close>, joined.\<close>

fun truncate_context :: "nat option \<Rightarrow> nat \<Rightarrow> string list list \<Rightarrow> string list \<Rightarrow> string list" where
  "truncate_context th sent_ix [] truncated = truncated"
| "truncate_context th sent_ix (sent # sents) truncated =
     (if th = Some sent_ix then truncated
      else truncate_context th (Suc sent_ix) sents (truncated @ sent))"

text \<open>\<^verbatim>\<open>xs[:n]\<close>, where \<open>n\<close> may be \<open>None\<close>.\<close>

definition slice_to :: "nat option \<Rightarrow> 'a list \<Rightarrow> 'a list" where
  "slice_to n xs = (case n of None \<Rightarrow> xs | Some k \<Rightarrow> take k xs)"

text \<open>
  \<^verbatim>\<open>block[:len(rows)] = rows\<close> for a featurizer that returns one row of \<open>width\<close> features per
  token: the rows replace the first rows of the block; rows that do not fit the block are a
  shape mismatch.
\<close>

definition assign_rows :: "nat \<Rightarrow> 'f list list \<Rightarrow> 'f list list \<Rightarrow> error + 'f list list" where
  "assign_rows width rows block =
     (if length rows \<le> length block \<and> list_all (\<lambda>row. length row = width) rows
      then Inr (rows @ drop (length rows) block)
      else Inl (ValueError NumpyMsg))"

text \<open>The body of the loop over the batch that writes the features (lines 327 to 334).\<close>

definition features_doc ::
  "('s, 'f) encoder \<Rightarrow> 'f QaTextFeautrizer \<Rightarrow> nat \<Rightarrow> ParagraphAndQuestion
     \<Rightarrow> 'f list list list \<times> 'f list list list \<Rightarrow> error + ('f list list list \<times> 'f list list list)" where
  "features_doc self featurizer doc_ix doc arrs =
     (case arrs of (question_word_features, context_word_features) \<Rightarrow>
        (case get_features featurizer (question doc)
                (slice_to (max_context_word_dim self)
                   (truncate_context (sent_size_th self) 0 (para_context doc) [])) of
           (q_f, c_f) \<Rightarrow>
             if length question_word_features \<le> doc_ix \<or> length context_word_features \<le> doc_ix
             then Inl IndexError
             else
               (case assign_rows (n_question_features featurizer) q_f (question_word_features ! doc_ix) of
                  Inl e \<Rightarrow> Inl e
                | Inr qrows \<Rightarrow>
                    (case assign_rows (n_context_features featurizer) c_f (context_word_features ! doc_ix) of
                       Inl e \<Rightarrow> Inl e
                     | Inr crows \<Rightarrow>
                         Inr (question_word_features[doc_ix := qrows],
                              context_word_features[doc_ix := crows])))))"

text \<open>
  \<open>DocumentAndQuestionEncoder.encode\<close>. The embedder's state and the random generator come
  in with the call and go out with the feed dictionary.
\<close>

definition encode ::
  "(int \<Rightarrow> int \<Rightarrow> int \<Rightarrow> int \<Rightarrow> int) \<Rightarrow> ('s, 'f::zero) encoder \<Rightarrow> ParagraphAndQuestion list \<Rightarrow> bool
     \<Rightarrow> 's \<times> rng \<Rightarrow> error + ('f feed \<times> 's \<times> rng)" where
  "encode pack self batch is_train ext =
     (case ext of (s, g) \<Rightarrow>
      (case padded_batch_size (batch_size self) (length batch)
              (\<lambda>b. BatchSizeMsg b (length batch)) of
         Inl e \<Rightarrow> Inl e
       | Inr n \<Rightarrow>
      (case context_lengths self is_train batch of
         Inl e \<Rightarrow> Inl e
       | Inr (context_len, context_word_dim) \<Rightarrow>
      (let question_len = map (\<lambda>x. length (question x)) batch in
       case question_dim (max_ques_word_dim self) question_len of
         Inl e \<Rightarrow> Inl e
       | Inr ques_word_dim \<Rightarrow>
      (let st0 = \<lparr>placeholders = Map.empty, emb_state = s,
                  question_words =
                    (if word_embedder self = None then []
                     else replicate n (replicate ques_word_dim 0)),
                  question_chars =
                    (if char_emb self = None then []
                     else replicate n (replicate ques_word_dim (replicate (max_char_dim self) 0))),
                  context_words =
                    (if word_embedder self = None then []
                     else replicate n (replicate context_word_dim 0)),
                  context_chars =
                    (if char_emb self = None then []
                     else replicate n (replicate context_word_dim (replicate (max_char_dim self) 0)))\<rparr>
       in
       case for_enumerate (encode_doc self is_train) 0 batch st0 of
         Inl e \<Rightarrow> Inl e
       | Inr st \<Rightarrow>
      (case answer_encode pack (answer_encoder self) n context_len context_word_dim batch g of
         Inl e \<Rightarrow> Inl e
       | Inr (target, g') \<Rightarrow>
      (case (case word_featurizer self of
               None \<Rightarrow> Inr None
             | Some featurizer \<Rightarrow>
                 (case for_enumerate (features_doc self featurizer) 0 batch
                         (replicate n (replicate ques_word_dim (replicate (n_question_features featurizer) 0)),
                          replicate n (replicate context_word_dim (replicate (n_context_features featurizer) 0))) of
                    Inl e \<Rightarrow> Inl e
                  | Inr arrs \<Rightarrow> Inr (Some arrs))) of
         Inl e \<Rightarrow> Inl e
       | Inr features \<Rightarrow>
           Inr (\<lparr>fd_context_len = context_len,
                 fd_question_len = question_len,
                 fd_context_words =
                   (if word_embedder self = None then None else Some (context_words st)),
                 fd_question_words =
                   (if word_embedder self = None then None else Some (question_words st)),
                 fd_context_chars =
                   (if char_emb self = None then None else Some (context_chars st)),
                 fd_question_chars =
                   (if char_emb self = None then None else Some (question_chars st)),
                 fd_answer = target,
                 fd_context_features = map_option snd features,
                 fd_question_features = map_option fst features\<rparr>,
                emb_state st, g'))))))))"

section \<open>CheatingEncoder\<close>




section \<open>Example inputs\<close>

definition first_draw :: rng where
  "first_draw = (\<lambda>i. 0)"


definition doc_of_answer :: "answer option \<Rightarrow> ParagraphAndQuestion" where
  "doc_of_answer a =
     \<lparr>question = [''who''],
      para_context = [[''a'', ''b'', ''c'', ''d'', ''e''], [''f'', ''g'', ''h'', ''i'', ''j'']],
      answer = a\<rparr>"

text \<open>A packing function for the examples: spans ordered by length, then by start.\<close>

definition packed_by_length :: "int \<Rightarrow> int \<Rightarrow> int \<Rightarrow> int \<Rightarrow> int" where
  "packed_by_length s e l bound = s + l * (e - s) - (e - s) * (e - s - 1) div 2"

text \<open>
  A word embedder for the examples: five known words, and placeholders issued in sequence from
  a counter that is the embedder's state.
\<close>

definition vocab :: "string \<Rightarrow> int" where
  "vocab w =
     (if w = ''what'' then 3 else if w = ''the'' then 4 else if w = ''a'' then 5
      else if w = ''who'' then 6 else if w = ''b'' then 7 else - 1)"

definition counting_embedder :: "nat WordEmbedder" where
  "counting_embedder =
     \<lparr>question_word_to_ix = vocab, context_word_to_ix = vocab,
      get_placeholder = (\<lambda>ix is_train s. (100 + int s, Suc s))\<rparr>"

definition plain_encoder :: "(nat, int) encoder" where
  "plain_encoder =
     \<lparr>answer_encoder = DenseMultiSpanAnswerEncoder, sent_size_th = None, word_featurizer = None,
      word_embedder = Some counting_embedder, char_emb = None, len_opt = False,
      batch_size = None, max_context_word_dim = None, max_ques_word_dim = None, max_char_dim = 1\<rparr>"


section \<open>Loops\<close>

lemma for_enumerate_fails:
  assumes "x \<in> set xs" and "\<And>i s. isl (body i x s)"
  shows "isl (for_enumerate body i xs s)"
  using assms(1)
proof (induction xs arbitrary: i s)
  case Nil
  then show ?case by simp
next
  case (Cons y ys)
  show ?case
  proof (cases "body i y s")
    case (Inl e)
    then show ?thesis by simp
  next
    case (Inr s')
    with Cons assms(2) [of i s] show ?thesis by auto
  qed
qed

lemma for_enumerate_skips:
  assumes "\<And>i x s. x \<in> set xs \<Longrightarrow> body i x s = Inr s"
  shows "for_enumerate body i xs s = Inr s"
  using assms by (induction xs arbitrary: i) simp_all

lemma for_enumerate_invariant:
  assumes "for_enumerate body i0 xs s0 = Inr s'"
    and "I 0 s0"
    and "\<And>k s t. k < length xs \<Longrightarrow> I k s \<Longrightarrow> body (i0 + k) (xs ! k) s = Inr t \<Longrightarrow> I (Suc k) t"
  shows "I (length xs) s'"
  using assms
proof (induction xs arbitrary: i0 s0 I)
  case Nil
  then show ?case by simp
next
  case (Cons x xs)
  from Cons.prems(1) obtain s1 where s1: "body i0 x s0 = Inr s1"
    and rest: "for_enumerate body (Suc i0) xs s1 = Inr s'"
    by (auto split: sum.splits)
  have base: "I (Suc 0) s1"
    using Cons.prems(3) [of 0 s0 s1] Cons.prems(2) s1 by simp
  have step: "\<And>k s t. k < length xs \<Longrightarrow> I (Suc k) s \<Longrightarrow> body (Suc i0 + k) (xs ! k) s = Inr t
                \<Longrightarrow> I (Suc (Suc k)) t"
    using Cons.prems(3) by force
  from Cons.IH [of "Suc i0" s1 "\<lambda>k. I (Suc k)", OF rest base step]
  show ?case by simp
qed

lemma for_enumerate_total:
  assumes "I 0 s0"
    and "\<And>k s. k < length xs \<Longrightarrow> I k s \<Longrightarrow> \<exists>t. body (i0 + k) (xs ! k) s = Inr t \<and> I (Suc k) t"
  shows "\<exists>s'. for_enumerate body i0 xs s0 = Inr s' \<and> I (length xs) s'"
  using assms
proof (induction xs arbitrary: i0 s0 I)
  case Nil
  then show ?case by simp
next
  case (Cons x xs)
  from Cons.prems(2) [of 0 s0] Cons.prems(1)
  obtain s1 where s1: "body i0 x s0 = Inr s1" and base: "I (Suc 0) s1" by auto
  have step: "\<And>k s. k < length xs \<Longrightarrow> I (Suc k) s
                \<Longrightarrow> \<exists>t. body (Suc i0 + k) (xs ! k) s = Inr t \<and> I (Suc (Suc k)) t"
    using Cons.prems(2) by force
  from Cons.IH [of "\<lambda>k. I (Suc k)" s1 "Suc i0", OF base step] s1
  show ?case by simp
qed


section \<open>Selecting and validating one span\<close>








section \<open>The span written for an example\<close>






section \<open>Writing through an index array\<close>

lemma np_index_in_range: "0 \<le> i \<Longrightarrow> i < int n \<Longrightarrow> np_index n i = Some (nat i)"
  by (simp add: np_index_def)

lemma np_index_Some: "np_index n i = Some k \<Longrightarrow> k < n"
  by (auto simp: np_index_def split: if_splits)

lemma set_indices_in_range:
  assumes "\<forall>i \<in> set idxs. 0 \<le> i \<and> i < int (length row)"
  shows "\<exists>row'. set_indices v idxs row = Inr row' \<and> length row' = length row
           \<and> (\<forall>j < length row. row' ! j = (if int j \<in> set idxs then v else row ! j))"
  using assms
proof (induction idxs arbitrary: row)
  case Nil
  then show ?case by simp
next
  case (Cons i idxs)
  from Cons.prems have i: "0 \<le> i" "i < int (length row)" by simp_all
  then have ix: "np_index (length row) i = Some (nat i)" by (rule np_index_in_range)
  have "\<forall>m \<in> set idxs. 0 \<le> m \<and> m < int (length (row[nat i := v]))"
    using Cons.prems by simp
  from Cons.IH [OF this] obtain row' where r: "set_indices v idxs (row[nat i := v]) = Inr row'"
    "length row' = length row"
    "\<forall>j < length row. row' ! j = (if int j \<in> set idxs then v else row[nat i := v] ! j)"
    by auto
  have "\<forall>j < length row. row' ! j = (if int j \<in> set (i # idxs) then v else row ! j)"
  proof (intro allI impI)
    fix j assume j: "j < length row"
    show "row' ! j = (if int j \<in> set (i # idxs) then v else row ! j)"
    proof (cases "int j = i")
      case True
      then have "nat i = j" by simp
      with r(3) j True show ?thesis by simp
    next
      case False
      then have "nat i \<noteq> j" using i by auto
      with r(3) j False show ?thesis by simp
    qed
  qed
  with r ix show ?case by simp
qed

lemma set_indices_Inr:
  assumes "set_indices v idxs row = Inr row'"
  shows "length row' = length row
         \<and> (\<forall>i \<in> set idxs. \<exists>k. np_index (length row) i = Some k \<and> row' ! k = v)
         \<and> (\<forall>j. row ! j = v \<longrightarrow> row' ! j = v)"
  using assms
proof (induction idxs arbitrary: row)
  case Nil
  then show ?case by simp
next
  case (Cons i idxs)
  from Cons.prems obtain k where k: "np_index (length row) i = Some k"
    and rest: "set_indices v idxs (row[k := v]) = Inr row'"
    by (auto split: option.splits)
  from Cons.IH [OF rest] have ih: "length row' = length row"
    "\<forall>i \<in> set idxs. \<exists>k. np_index (length row) i = Some k \<and> row' ! k = v"
    "\<forall>j. row[k := v] ! j = v \<longrightarrow> row' ! j = v"
    by simp_all
  from np_index_Some [OF k] have kl: "k < length row" .
  then have "row[k := v] ! k = v" by simp
  with ih(3) have here: "row' ! k = v" by blast
  have keep: "\<forall>j. row ! j = v \<longrightarrow> row' ! j = v"
  proof (intro allI impI)
    fix j assume "row ! j = v"
    then have "row[k := v] ! j = v" using kl by (simp add: nth_list_update)
    with ih(3) show "row' ! j = v" by blast
  qed
  from ih(1,2) here k keep show ?case by auto
qed

lemma set_indices_total:
  assumes "\<forall>i \<in> set idxs. np_index (length row) i \<noteq> None"
  shows "\<exists>row'. set_indices v idxs row = Inr row'"
  using assms
proof (induction idxs arbitrary: row)
  case Nil
  then show ?case by simp
next
  case (Cons i idxs)
  then obtain k where k: "np_index (length row) i = Some k" by auto
  have "\<forall>m \<in> set idxs. np_index (length (row[k := v])) m \<noteq> None"
    using Cons.prems by simp
  from Cons.IH [OF this] k show ?case by simp
qed


lemma dense_doc_step:
  assumes a: "answer doc = Some a" "answer_spans a = Inr spans"
    and wf: "\<forall>sp \<in> set spans. 0 \<le> fst sp \<and> fst sp \<le> snd sp"
    and k: "k < length st" "k < length en"
    and fresh: "st ! k = replicate n False" "en ! k = replicate n False"
  shows "\<exists>srow erow. dense_doc n k doc (st, en) = Inr (st[k := srow], en[k := erow])
           \<and> length srow = n \<and> length erow = n
           \<and> (\<forall>j < n. srow ! j = (\<exists>sp \<in> set spans. snd sp < int n \<and> fst sp = int j)
                       \<and> erow ! j = (\<exists>sp \<in> set spans. snd sp < int n \<and> snd sp = int j))"
proof -
  let ?kept = "filter (\<lambda>sp. snd sp < int n) spans"
  have "\<forall>i \<in> set (map fst ?kept). 0 \<le> i \<and> i < int (length (replicate n False))"
    using wf by auto
  from set_indices_in_range [OF this, of True]
  obtain srow where s: "set_indices True (map fst ?kept) (replicate n False) = Inr srow"
    "length srow = n" "\<forall>j < n. srow ! j = (int j \<in> set (map fst ?kept))"
    by auto
  have "\<forall>i \<in> set (map snd ?kept). 0 \<le> i \<and> i < int (length (replicate n False))"
    using wf by auto
  from set_indices_in_range [OF this, of True]
  obtain erow where e: "set_indices True (map snd ?kept) (replicate n False) = Inr erow"
    "length erow = n" "\<forall>j < n. erow ! j = (int j \<in> set (map snd ?kept))"
    by auto
  have run: "dense_doc n k doc (st, en) = Inr (st[k := srow], en[k := erow])"
    using a k fresh s(1) e(1) by (simp add: dense_doc_def set_row_indices_def Let_def)
  have "\<forall>j < n. srow ! j = (\<exists>sp \<in> set spans. snd sp < int n \<and> fst sp = int j)"
    using s(3) by force
  moreover have "\<forall>j < n. erow ! j = (\<exists>sp \<in> set spans. snd sp < int n \<and> snd sp = int j)"
    using e(3) by force
  ultimately show ?thesis using run s(2) e(2) by blast
qed

lemma dense_encode_rows:
  assumes fits: "length batch \<le> bsize"
    and wf: "\<forall>doc \<in> set batch. \<forall>a. answer doc = Some a \<longrightarrow>
               (\<exists>spans. answer_spans a = Inr spans \<and> (\<forall>sp \<in> set spans. 0 \<le> fst sp \<and> fst sp \<le> snd sp))"
  shows "\<exists>starts ends. dense_encode bsize context_len n batch = Inr (starts, ends)
           \<and> length starts = bsize \<and> length ends = bsize
           \<and> (\<forall>i < bsize. length (starts ! i) = n \<and> length (ends ! i) = n)
           \<and> (\<forall>i < length batch. answer (batch ! i) = None \<longrightarrow>
                  starts ! i = replicate n False \<and> ends ! i = replicate n False)
           \<and> (\<forall>i < length batch. \<forall>a spans. answer (batch ! i) = Some a \<and> answer_spans a = Inr spans \<longrightarrow>
                  (\<forall>j < n. starts ! i ! j = (\<exists>sp \<in> set spans. snd sp < int n \<and> fst sp = int j)
                           \<and> ends ! i ! j = (\<exists>sp \<in> set spans. snd sp < int n \<and> snd sp = int j)))"
proof -
  define R where "R = (\<lambda>i (srow :: bool list) (erow :: bool list).
     (answer (batch ! i) = None \<longrightarrow> srow = replicate n False \<and> erow = replicate n False)
     \<and> (\<forall>a spans. answer (batch ! i) = Some a \<and> answer_spans a = Inr spans \<longrightarrow>
        (\<forall>j < n. srow ! j = (\<exists>sp \<in> set spans. snd sp < int n \<and> fst sp = int j)
                 \<and> erow ! j = (\<exists>sp \<in> set spans. snd sp < int n \<and> snd sp = int j))))"
  define I where "I = (\<lambda>k (m :: bool list list \<times> bool list list).
     length (fst m) = bsize \<and> length (snd m) = bsize
     \<and> (\<forall>i < bsize. length (fst m ! i) = n \<and> length (snd m ! i) = n)
     \<and> (\<forall>i < k. R i (fst m ! i) (snd m ! i))
     \<and> (\<forall>i. k \<le> i \<and> i < bsize \<longrightarrow>
            fst m ! i = replicate n False \<and> snd m ! i = replicate n False))"
  let ?z = "replicate bsize (replicate n False)"
  have "\<exists>s'. for_enumerate (dense_doc n) 0 batch (?z, ?z) = Inr s' \<and> I (length batch) s'"
  proof (rule for_enumerate_total)
    show "I 0 (?z, ?z)" by (simp add: I_def)
  next
    fix k m
    assume k: "k < length batch" and inv: "I k m"
    obtain st en where m: "m = (st, en)" by (cases m)
    from inv m have len: "length st = bsize" "length en = bsize"
      and rows: "\<forall>i < bsize. length (st ! i) = n \<and> length (en ! i) = n"
      and earlier: "\<forall>i < k. R i (st ! i) (en ! i)"
      and fresh: "\<forall>i. k \<le> i \<and> i < bsize \<longrightarrow>
                    st ! i = replicate n False \<and> en ! i = replicate n False"
      by (simp_all add: I_def)
    from k fits have kb: "k < bsize" by simp
    have "\<exists>srow erow. dense_doc n k (batch ! k) (st, en) = Inr (st[k := srow], en[k := erow])
            \<and> length srow = n \<and> length erow = n \<and> R k srow erow"
    proof (cases "answer (batch ! k)")
      case None
      with fresh kb have "R k (st ! k) (en ! k)" by (simp add: R_def)
      moreover from None have "dense_doc n k (batch ! k) (st, en) = Inr (st[k := st ! k], en[k := en ! k])"
        by (simp add: dense_doc_def)
      ultimately show ?thesis using rows kb by blast
    next
      case (Some a)
      with wf k obtain spans where a: "answer_spans a = Inr spans"
        and sp: "\<forall>sp \<in> set spans. 0 \<le> fst sp \<and> fst sp \<le> snd sp"
        by (meson nth_mem)
      from dense_doc_step [OF Some a sp, of k st en n] kb len fresh
      obtain srow erow where
        "dense_doc n k (batch ! k) (st, en) = Inr (st[k := srow], en[k := erow])"
        "length srow = n" "length erow = n"
        "\<forall>j < n. srow ! j = (\<exists>sp \<in> set spans. snd sp < int n \<and> fst sp = int j)
                  \<and> erow ! j = (\<exists>sp \<in> set spans. snd sp < int n \<and> snd sp = int j)"
        by auto
      moreover from this(4) Some a have "R k srow erow" by (simp add: R_def)
      ultimately show ?thesis by blast
    qed
    then obtain srow erow where step:
      "dense_doc n k (batch ! k) (st, en) = Inr (st[k := srow], en[k := erow])"
      "length srow = n" "length erow = n" "R k srow erow"
      by blast
    have "I (Suc k) (st[k := srow], en[k := erow])"
      unfolding I_def
    proof (intro conjI allI impI)
      show "length (fst (st[k := srow], en[k := erow])) = bsize" using len by simp
      show "length (snd (st[k := srow], en[k := erow])) = bsize" using len by simp
    next
      fix i assume "i < bsize"
      then show "length (fst (st[k := srow], en[k := erow]) ! i) = n"
        using rows step(2) len kb by (cases "i = k") simp_all
    next
      fix i assume "i < bsize"
      then show "length (snd (st[k := srow], en[k := erow]) ! i) = n"
        using rows step(3) len kb by (cases "i = k") simp_all
    next
      fix i assume "i < Suc k"
      then show "R i (fst (st[k := srow], en[k := erow]) ! i) (snd (st[k := srow], en[k := erow]) ! i)"
        using earlier step(4) len kb by (cases "i = k") simp_all
    next
      fix i assume "Suc k \<le> i \<and> i < bsize"
      then show "fst (st[k := srow], en[k := erow]) ! i = replicate n False"
        using fresh by simp
    next
      fix i assume "Suc k \<le> i \<and> i < bsize"
      then show "snd (st[k := srow], en[k := erow]) ! i = replicate n False"
        using fresh by simp
    qed
    with step(1) m show "\<exists>t. dense_doc n (0 + k) (batch ! k) m = Inr t \<and> I (Suc k) t" by simp
  qed
  then obtain starts ends where r: "for_enumerate (dense_doc n) 0 batch (?z, ?z) = Inr (starts, ends)"
    "I (length batch) (starts, ends)" by auto
  from r(1) have "dense_encode bsize context_len n batch = Inr (starts, ends)"
    by (simp add: dense_encode_def)
  then have enc: "dense_encode bsize context_len n batch = Inr (starts, ends)" .
  from r(2) have len: "length starts = bsize" "length ends = bsize"
    and rows: "\<forall>i < bsize. length (starts ! i) = n \<and> length (ends ! i) = n"
    and filled: "\<forall>i < length batch. R i (starts ! i) (ends ! i)"
    by (simp_all add: I_def)
  from filled have none: "\<forall>i < length batch. answer (batch ! i) = None \<longrightarrow>
                  starts ! i = replicate n False \<and> ends ! i = replicate n False"
    by (simp add: R_def)
  from filled have some: "\<forall>i < length batch. \<forall>a spans.
        answer (batch ! i) = Some a \<and> answer_spans a = Inr spans \<longrightarrow>
        (\<forall>j < n. starts ! i ! j = (\<exists>sp \<in> set spans. snd sp < int n \<and> fst sp = int j)
                 \<and> ends ! i ! j = (\<exists>sp \<in> set spans. snd sp < int n \<and> snd sp = int j))"
    unfolding R_def by blast
  from enc len rows none some show ?thesis by blast
qed


lemma packed_doc_Inr:
  assumes "packed_doc pack bound n k doc output = Inr output'"
  shows "\<exists>a spans row. answer doc = Some a \<and> answer_spans a = Inr spans \<and> k < length output
           \<and> output' = output[k := row] \<and> length row = length (output ! k)
           \<and> (\<forall>sp \<in> set spans. \<exists>j. np_index (length row) (pack (fst sp) (snd sp) (int n) bound) = Some j
                                    \<and> row ! j)"
proof -
  from assms obtain a spans where a: "answer doc = Some a" "answer_spans a = Inr spans"
    and w: "set_row_indices True k (to_packed_coordinates_np pack spans (int n) bound) output = Inr output'"
    by (auto simp: packed_doc_def split: option.splits sum.splits)
  from w obtain row where k: "k < length output"
    and row: "set_indices True (to_packed_coordinates_np pack spans (int n) bound) (output ! k) = Inr row"
    and out: "output' = output[k := row]"
    by (auto simp: set_row_indices_def split: if_splits sum.splits)
  from set_indices_Inr [OF row] have len: "length row = length (output ! k)"
    and hit: "\<forall>i \<in> set (to_packed_coordinates_np pack spans (int n) bound).
               \<exists>j. np_index (length (output ! k)) i = Some j \<and> row ! j = True"
    by simp_all
  have "\<forall>sp \<in> set spans. \<exists>j. np_index (length row) (pack (fst sp) (snd sp) (int n) bound) = Some j \<and> row ! j"
    using hit len by (simp add: to_packed_coordinates_np_def)
  with a k out len show ?thesis by blast
qed

lemma packed_encode_rows:
  assumes enc: "packed_encode pack bound bsize context_len n batch = Inr output"
  shows "length output = length batch
         \<and> (\<forall>row \<in> set output. int (length row) = packed_size pack bound n)
         \<and> (\<forall>i < length batch. \<exists>a spans. answer (batch ! i) = Some a \<and> answer_spans a = Inr spans
               \<and> (\<forall>sp \<in> set spans. \<exists>j. np_index (length (output ! i))
                                                 (pack (fst sp) (snd sp) (int n) bound) = Some j
                                         \<and> output ! i ! j))"
proof -
  let ?sz = "packed_size pack bound n"
  define R where "R = (\<lambda>i (row :: bool list).
     \<exists>a spans. answer (batch ! i) = Some a \<and> answer_spans a = Inr spans
        \<and> (\<forall>sp \<in> set spans. \<exists>j. np_index (length row) (pack (fst sp) (snd sp) (int n) bound) = Some j
                                 \<and> row ! j))"
  define I where "I = (\<lambda>k (out :: bool list list).
     length out = length batch \<and> (\<forall>i < length batch. length (out ! i) = nat ?sz)
     \<and> (\<forall>i < k. R i (out ! i)))"
  from enc have sz: "0 \<le> ?sz"
    and loop: "for_enumerate (packed_doc pack bound n) 0 batch
                 (replicate (length batch) (replicate (nat ?sz) False)) = Inr output"
    by (simp_all add: packed_encode_def Let_def split: if_splits)
  have "I (length batch) output"
  proof (rule for_enumerate_invariant [OF loop])
    show "I 0 (replicate (length batch) (replicate (nat ?sz) False))" by (simp add: I_def)
  next
    fix k out out'
    assume k: "k < length batch" and inv: "I k out"
      and body: "packed_doc pack bound n (0 + k) (batch ! k) out = Inr out'"
    from inv have len: "length out = length batch"
      and rows: "\<forall>i < length batch. length (out ! i) = nat ?sz"
      and earlier: "\<forall>i < k. R i (out ! i)"
      by (simp_all add: I_def)
    from packed_doc_Inr [of pack bound n k "batch ! k" out out'] body
    obtain a spans row where step: "answer (batch ! k) = Some a" "answer_spans a = Inr spans"
      "out' = out[k := row]" "length row = length (out ! k)"
      "\<forall>sp \<in> set spans. \<exists>j. np_index (length row) (pack (fst sp) (snd sp) (int n) bound) = Some j
                                    \<and> row ! j"
      by auto
    have "R k row" unfolding R_def using step(1,2,5) by blast
    show "I (Suc k) out'"
      unfolding I_def
    proof (intro conjI allI impI)
      show "length out' = length batch" using len step(3) by simp
    next
      fix i assume "i < length batch"
      then show "length (out' ! i) = nat ?sz"
        using rows step(3,4) len k by (cases "i = k") simp_all
    next
      fix i assume "i < Suc k"
      then show "R i (out' ! i)"
        using earlier \<open>R k row\<close> step(3) len k by (cases "i = k") simp_all
    qed
  qed
  then have len: "length output = length batch"
    and rows: "\<forall>i < length batch. length (output ! i) = nat ?sz"
    and filled: "\<forall>i < length batch. R i (output ! i)"
    by (simp_all add: I_def)
  have "\<forall>row \<in> set output. int (length row) = ?sz"
    using rows len sz by (auto simp: in_set_conv_nth)
  with len filled show ?thesis unfolding R_def by blast
qed

lemma packed_encode_total:
  assumes sz: "0 \<le> packed_size pack bound n"
    and ok: "\<forall>doc \<in> set batch. \<exists>a spans. answer doc = Some a \<and> answer_spans a = Inr spans
               \<and> (\<forall>sp \<in> set spans. 0 \<le> pack (fst sp) (snd sp) (int n) bound
                      \<and> pack (fst sp) (snd sp) (int n) bound < packed_size pack bound n)"
  shows "\<exists>output. packed_encode pack bound bsize context_len n batch = Inr output"
proof -
  let ?sz = "packed_size pack bound n"
  define I where "I = (\<lambda>(k::nat) (out :: bool list list).
     length out = length batch \<and> (\<forall>i < length batch. length (out ! i) = nat ?sz))"
  have "\<exists>s'. for_enumerate (packed_doc pack bound n) 0 batch
               (replicate (length batch) (replicate (nat ?sz) False)) = Inr s' \<and> I (length batch) s'"
  proof (rule for_enumerate_total)
    show "I 0 (replicate (length batch) (replicate (nat ?sz) False))" by (simp add: I_def)
  next
    fix k out
    assume k: "k < length batch" and inv: "I k out"
    from inv have len: "length out = length batch"
      and rows: "\<forall>i < length batch. length (out ! i) = nat ?sz"
      by (simp_all add: I_def)
    from ok k obtain a spans where a: "answer (batch ! k) = Some a" "answer_spans a = Inr spans"
      and rng: "\<forall>sp \<in> set spans. 0 \<le> pack (fst sp) (snd sp) (int n) bound
                      \<and> pack (fst sp) (snd sp) (int n) bound < ?sz"
      by (meson nth_mem)
    have "\<forall>i \<in> set (to_packed_coordinates_np pack spans (int n) bound).
            np_index (length (out ! k)) i \<noteq> None"
      using rng rows k sz by (auto simp: to_packed_coordinates_np_def np_index_def)
    from set_indices_total [OF this, of True]
    obtain row where row: "set_indices True (to_packed_coordinates_np pack spans (int n) bound) (out ! k)
                            = Inr row" by blast
    from set_indices_Inr [OF row] have rl: "length row = length (out ! k)" by simp
    have run: "packed_doc pack bound n (0 + k) (batch ! k) out = Inr (out[k := row])"
      using a row k len by (simp add: packed_doc_def set_row_indices_def)
    have "I (Suc k) (out[k := row])"
      unfolding I_def
    proof (intro conjI allI impI)
      show "length (out[k := row]) = length batch" using len by simp
    next
      fix i assume "i < length batch"
      then show "length (out[k := row] ! i) = nat ?sz"
        using rows rl len k by (cases "i = k") simp_all
    qed
    with run show "\<exists>t. packed_doc pack bound n (0 + k) (batch ! k) out = Inr t \<and> I (Suc k) t"
      by blast
  qed
  with sz show ?thesis by (auto simp: packed_encode_def Let_def)
qed

section \<open>Start and end masks\<close>

text \<open>
  C5. When the two mask arrays have a row for every example and the gold spans are well formed
  (\<open>0 \<le> start \<le> end\<close>), \<open>DenseMultiSpanAnswerEncoder.encode\<close> returns: both arrays
  have \<open>bsize\<close> rows of length \<open>context_word_dim\<close>; the rows of an example without
  an answer are all false; in the rows of an example with gold spans, position \<open>j\<close> of the
  start mask is true exactly when a gold span with \<open>end < context_word_dim\<close> starts at
  \<open>j\<close>, and position \<open>j\<close> of the end mask exactly when such a span ends at \<open>j\<close>, so a
  span that ends at or after \<open>context_word_dim\<close> leaves no mark and raises nothing. For the
  gold spans \<open>(2,5)\<close> and \<open>(7,9)\<close> and \<open>context_word_dim = 8\<close> the start mask is true
  at 2 only and the end mask at 5 only.
\<close>

theorem dense_start_end_masks:
  "(length batch \<le> bsize
    \<and> (\<forall>doc \<in> set batch. \<forall>a. answer doc = Some a \<longrightarrow>
          (\<exists>spans. answer_spans a = Inr spans \<and> (\<forall>sp \<in> set spans. 0 \<le> fst sp \<and> fst sp \<le> snd sp)))
    \<longrightarrow>
    (\<exists>starts ends. dense_encode bsize context_len context_word_dim batch = Inr (starts, ends)
       \<and> length starts = bsize \<and> length ends = bsize
       \<and> (\<forall>i < bsize. length (starts ! i) = context_word_dim \<and> length (ends ! i) = context_word_dim)
       \<and> (\<forall>i < length batch. answer (batch ! i) = None \<longrightarrow>
              starts ! i = replicate context_word_dim False \<and> ends ! i = replicate context_word_dim False)
       \<and> (\<forall>i < length batch. \<forall>a spans. answer (batch ! i) = Some a \<and> answer_spans a = Inr spans \<longrightarrow>
              (\<forall>j < context_word_dim.
                  starts ! i ! j = (\<exists>sp \<in> set spans. snd sp < int context_word_dim \<and> fst sp = int j)
                \<and> ends ! i ! j = (\<exists>sp \<in> set spans. snd sp < int context_word_dim \<and> snd sp = int j)))))
   \<and> dense_encode 1 [10] 8 [doc_of_answer (Some (TriviaQaAnswer [(2, 5), (7, 9)]))]
       = Inr ([[False, False, True, False, False, False, False, False]],
              [[False, False, False, False, False, True, False, False]])"
proof (intro conjI impI)
  assume h: "length batch \<le> bsize
    \<and> (\<forall>doc \<in> set batch. \<forall>a. answer doc = Some a \<longrightarrow>
          (\<exists>spans. answer_spans a = Inr spans \<and> (\<forall>sp \<in> set spans. 0 \<le> fst sp \<and> fst sp \<le> snd sp)))"
  from h have fits: "length batch \<le> bsize" by (rule conjunct1)
  from h have wf: "\<forall>doc \<in> set batch. \<forall>a. answer doc = Some a \<longrightarrow>
          (\<exists>spans. answer_spans a = Inr spans \<and> (\<forall>sp \<in> set spans. 0 \<le> fst sp \<and> fst sp \<le> snd sp))"
    by (rule conjunct2)
  show "\<exists>starts ends. dense_encode bsize context_len context_word_dim batch = Inr (starts, ends)
       \<and> length starts = bsize \<and> length ends = bsize
       \<and> (\<forall>i < bsize. length (starts ! i) = context_word_dim \<and> length (ends ! i) = context_word_dim)
       \<and> (\<forall>i < length batch. answer (batch ! i) = None \<longrightarrow>
              starts ! i = replicate context_word_dim False \<and> ends ! i = replicate context_word_dim False)
       \<and> (\<forall>i < length batch. \<forall>a spans. answer (batch ! i) = Some a \<and> answer_spans a = Inr spans \<longrightarrow>
              (\<forall>j < context_word_dim.
                  starts ! i ! j = (\<exists>sp \<in> set spans. snd sp < int context_word_dim \<and> fst sp = int j)
                \<and> ends ! i ! j = (\<exists>sp \<in> set spans. snd sp < int context_word_dim \<and> snd sp = int j)))"
    by (rule dense_encode_rows [OF fits wf])
next
  show "dense_encode 1 [10] 8 [doc_of_answer (Some (TriviaQaAnswer [(2, 5), (7, 9)]))]
       = Inr ([[False, False, True, False, False, False, False, False]],
              [[False, False, False, False, False, True, False, False]])"
    by code_simp
qed


theorem dense_start_end_masks_witness:
  "length [doc_of_answer (Some (TriviaQaAnswer [(2, 5), (7, 9)])), doc_of_answer None] \<le> (3::nat)
   \<and> (\<exists>starts ends.
         dense_encode 3 [10, 10] 8 [doc_of_answer (Some (TriviaQaAnswer [(2, 5), (7, 9)])), doc_of_answer None]
           = Inr (starts, ends)
         \<and> length starts = 3 \<and> length ends = 3
         \<and> starts ! 1 = replicate 8 False \<and> ends ! 1 = replicate 8 False)"
proof -
  let ?batch = "[doc_of_answer (Some (TriviaQaAnswer [(2, 5), (7, 9)])), doc_of_answer None]"
  have fits: "length ?batch \<le> (3::nat)" by simp
  have wf: "\<forall>doc \<in> set ?batch. \<forall>a. answer doc = Some a \<longrightarrow>
          (\<exists>spans. answer_spans a = Inr spans \<and> (\<forall>sp \<in> set spans. 0 \<le> fst sp \<and> fst sp \<le> snd sp))"
    by (simp add: doc_of_answer_def answer_spans_def)
  note t = dense_start_end_masks [where batch = ?batch and bsize = 3 and context_len = "[10, 10]"
      and context_word_dim = 8, THEN conjunct1, rule_format, OF conjI, OF fits wf]
  from t obtain starts ends where r:
    "dense_encode 3 [10, 10] 8 ?batch = Inr (starts, ends)"
    "length starts = 3" "length ends = 3"
    "\<forall>i < length ?batch. answer (?batch ! i) = None \<longrightarrow>
        starts ! i = replicate 8 False \<and> ends ! i = replicate 8 False"
    by blast
  have "(1::nat) < length ?batch \<and> answer (?batch ! 1) = None"
    by (simp add: doc_of_answer_def)
  with r(4) have "starts ! 1 = replicate 8 False \<and> ends ! 1 = replicate 8 False" by blast
  with r(1-3) fits show ?thesis by blast
qed

section \<open>The packed target\<close>

text \<open>
  C6. The width \<open>PackedMultiSpanAnswerEncoder.encode\<close> computes is the packed index of the
  span \<open>(L - bound, L - 1)\<close> plus one, for \<open>L = context_word_dim\<close>. When the call returns,
  the array has one row per example of the batch, every row has that width, and for every gold
  span of every example the entry its packed index addresses is true. The call returns when
  the width is not negative, every example has an answer with gold spans, and every packed
  index lies between zero and the width.
\<close>

theorem packed_target_array:
  "packed_size pack bound context_word_dim
     = pack (int context_word_dim - bound) (int context_word_dim - 1) (int context_word_dim) bound + 1
   \<and> (packed_encode pack bound bsize context_len context_word_dim batch = Inr output \<longrightarrow>
        length output = length batch
        \<and> (\<forall>row \<in> set output. int (length row)
               = pack (int context_word_dim - bound) (int context_word_dim - 1) (int context_word_dim) bound + 1)
        \<and> (\<forall>i < length batch. \<exists>a spans. answer (batch ! i) = Some a \<and> answer_spans a = Inr spans
              \<and> (\<forall>sp \<in> set spans.
                    \<exists>j. np_index (length (output ! i)) (pack (fst sp) (snd sp) (int context_word_dim) bound)
                          = Some j \<and> output ! i ! j)))
   \<and> (0 \<le> packed_size pack bound context_word_dim
        \<and> (\<forall>doc \<in> set batch. \<exists>a spans. answer doc = Some a \<and> answer_spans a = Inr spans
               \<and> (\<forall>sp \<in> set spans. 0 \<le> pack (fst sp) (snd sp) (int context_word_dim) bound
                      \<and> pack (fst sp) (snd sp) (int context_word_dim) bound
                          < packed_size pack bound context_word_dim))
        \<longrightarrow> (\<exists>out. packed_encode pack bound bsize context_len context_word_dim batch = Inr out))"
proof (intro conjI impI)
  show sz: "packed_size pack bound context_word_dim
     = pack (int context_word_dim - bound) (int context_word_dim - 1) (int context_word_dim) bound + 1"
    by (simp add: packed_size_def to_packed_coordinates_np_def)
  assume enc: "packed_encode pack bound bsize context_len context_word_dim batch = Inr output"
  note r = packed_encode_rows [OF enc]
  from r show "length output = length batch" by (rule conjunct1)
  from r sz show "\<forall>row \<in> set output. int (length row)
               = pack (int context_word_dim - bound) (int context_word_dim - 1) (int context_word_dim) bound + 1"
    by simp
  from r show "\<forall>i < length batch. \<exists>a spans. answer (batch ! i) = Some a \<and> answer_spans a = Inr spans
              \<and> (\<forall>sp \<in> set spans.
                    \<exists>j. np_index (length (output ! i)) (pack (fst sp) (snd sp) (int context_word_dim) bound)
                          = Some j \<and> output ! i ! j)"
    by (rule conjunct2 [THEN conjunct2])
next
  assume h: "0 \<le> packed_size pack bound context_word_dim
        \<and> (\<forall>doc \<in> set batch. \<exists>a spans. answer doc = Some a \<and> answer_spans a = Inr spans
               \<and> (\<forall>sp \<in> set spans. 0 \<le> pack (fst sp) (snd sp) (int context_word_dim) bound
                      \<and> pack (fst sp) (snd sp) (int context_word_dim) bound
                          < packed_size pack bound context_word_dim))"
  show "\<exists>out. packed_encode pack bound bsize context_len context_word_dim batch = Inr out"
    by (rule packed_encode_total [OF h [THEN conjunct1] h [THEN conjunct2]])
qed

theorem packed_target_array_witness:
  "packed_encode packed_by_length 2 1 [3] 3 [doc_of_answer (Some (TriviaQaAnswer [(0, 0), (1, 2)]))]
     = Inr [[True, False, False, False, True]]
   \<and> length [[True, False, False, False, True]]
       = length [doc_of_answer (Some (TriviaQaAnswer [(0, 0), (1, 2)]))]
   \<and> (\<exists>out. packed_encode packed_by_length 2 1 [3] 3 [doc_of_answer (Some (TriviaQaAnswer [(0, 0), (1, 2)]))]
              = Inr out)"
proof -
  let ?batch = "[doc_of_answer (Some (TriviaQaAnswer [(0, 0), (1, 2)]))]"
  have enc: "packed_encode packed_by_length 2 1 [3] 3 ?batch = Inr [[True, False, False, False, True]]"
    by code_simp
  note t = packed_target_array [where pack = packed_by_length and bound = 2 and bsize = 1
      and context_len = "[3]" and context_word_dim = 3 and batch = ?batch
      and ?output = "[[True, False, False, False, True]]"]
  from t [THEN conjunct2, THEN conjunct1, rule_format, OF enc]
  have len: "length [[True, False, False, False, True]] = length ?batch" by (rule conjunct1)
  have sz: "packed_size packed_by_length 2 3 = 5"
    by (simp add: packed_size_def to_packed_coordinates_np_def packed_by_length_def)
  have ok: "0 \<le> packed_size packed_by_length 2 3
        \<and> (\<forall>doc \<in> set ?batch. \<exists>a spans. answer doc = Some a \<and> answer_spans a = Inr spans
               \<and> (\<forall>sp \<in> set spans. 0 \<le> packed_by_length (fst sp) (snd sp) (int 3) 2
                      \<and> packed_by_length (fst sp) (snd sp) (int 3) 2 < packed_size packed_by_length 2 3))"
    by (simp add: sz doc_of_answer_def answer_spans_def packed_by_length_def)
  from t [THEN conjunct2, THEN conjunct2, rule_format, OF ok]
  have tot: "\<exists>out. packed_encode packed_by_length 2 1 [3] 3 ?batch = Inr out" .
  from enc len tot show ?thesis by (intro conjI)
qed

section \<open>An example without an answer\<close>

text \<open>
  C10. Whatever the packing function, the bound and the dimensions, a batch with an example
  whose answer is \<open>None\<close> makes \<open>PackedMultiSpanAnswerEncoder.encode\<close> fail: reading
  \<^verbatim>\<open>answer_spans\<close> of \<open>None\<close> raises. \<open>DenseMultiSpanAnswerEncoder.encode\<close> leaves
  its arrays as they are at such an example and goes on, so a batch of such examples returns
  the all-false masks.
\<close>

theorem packed_fails_on_None_dense_skips:
  "((\<exists>doc \<in> set batch. answer doc = None) \<longrightarrow>
      isl (packed_encode pack bound bsize context_len context_word_dim batch))
   \<and> (answer doc = None \<longrightarrow>
        packed_doc pack bound context_word_dim doc_ix doc output = Inl AttributeError
        \<and> dense_doc context_word_dim doc_ix doc masks = Inr masks)
   \<and> ((\<forall>doc \<in> set batch. answer doc = None) \<longrightarrow>
        dense_encode bsize context_len context_word_dim batch =
          Inr (replicate bsize (replicate context_word_dim False),
               replicate bsize (replicate context_word_dim False)))"
proof (intro conjI impI)
  assume "\<exists>doc \<in> set batch. answer doc = None"
  then obtain d where d: "d \<in> set batch" "answer d = None" by blast
  have "\<And>i s. isl (packed_doc pack bound context_word_dim i d s)"
    using d(2) by (simp add: packed_doc_def)
  from for_enumerate_fails [of d batch "packed_doc pack bound context_word_dim", OF d(1) this]
  show "isl (packed_encode pack bound bsize context_len context_word_dim batch)"
    by (simp add: packed_encode_def Let_def)
next
  assume "answer doc = None"
  then show "packed_doc pack bound context_word_dim doc_ix doc output = Inl AttributeError"
    by (simp add: packed_doc_def)
next
  assume "answer doc = None"
  then show "dense_doc context_word_dim doc_ix doc masks = Inr masks"
    by (cases masks) (simp add: dense_doc_def)
next
  assume "\<forall>doc \<in> set batch. answer doc = None"
  then have "\<And>i x s. x \<in> set batch \<Longrightarrow> dense_doc context_word_dim i x s = Inr s"
    by (auto simp: dense_doc_def split: prod.splits)
  from for_enumerate_skips [of batch "dense_doc context_word_dim", OF this]
  show "dense_encode bsize context_len context_word_dim batch =
          Inr (replicate bsize (replicate context_word_dim False),
               replicate bsize (replicate context_word_dim False))"
    by (simp add: dense_encode_def)
qed

theorem packed_fails_on_None_dense_skips_witness:
  "answer (doc_of_answer None) = None
   \<and> isl (packed_encode packed_by_length 2 1 [3] 3 [doc_of_answer None])
   \<and> packed_doc packed_by_length 2 3 0 (doc_of_answer None) [[False, False, False, False, False]]
       = Inl AttributeError
   \<and> dense_encode 1 [3] 3 [doc_of_answer None] = Inr ([[False, False, False]], [[False, False, False]])"
  using packed_fails_on_None_dense_skips
    [where batch = "[doc_of_answer None]" and pack = packed_by_length and bound = 2 and bsize = 1
       and context_len = "[3]" and context_word_dim = 3 and doc = "doc_of_answer None" and doc_ix = 0
       and ?output = "[[False, False, False, False, False]]"]
  by (simp add: numeral_3_eq_3 doc_of_answer_def)

section \<open>Batch capacity and question dimension\<close>

lemma np_max_nonempty: "xs \<noteq> [] \<Longrightarrow> np_max xs = Inr (Max (set xs))"
proof (cases xs)
  case Nil
  assume "xs \<noteq> []"
  with Nil show ?thesis by simp
next
  case (Cons x rest)
  have "Max (set (x # rest)) = fold max rest x" by (rule Max.set_eq_fold)
  with Cons show ?thesis by simp
qed

lemma context_lengths_nonempty:
  assumes "batch \<noteq> []"
  shows "\<exists>context_len dim. context_lengths self is_train batch = Inr (context_len, dim)"
  using assms by (simp add: context_lengths_def np_max_nonempty Let_def split: option.splits)

lemma question_dim_too_long:
  assumes "x \<in> set question_len" and "q < x"
  shows "question_dim (Some q) question_len = Inl (ValueError (QuesLenMsg (Max (set question_len)) q))
         \<and> q < Max (set question_len)"
proof -
  from assms(1) have ne: "question_len \<noteq> []" by auto
  from assms(1) have "x \<le> Max (set question_len)" by simp
  with assms(2) have "q < Max (set question_len)" by simp
  with ne show ?thesis by (simp add: question_dim_def np_max_nonempty)
qed

text \<open>
  C7. A batch with more examples than a fixed \<open>batch_size\<close> makes \<open>encode\<close> raise the
  \<^verbatim>\<open>ValueError\<close> of line 228, with the two sizes in its message. With a fixed question dimension
  and an example whose question is longer, a batch that fits raises the \<^verbatim>\<open>ValueError\<close> of line
  248, with the longest question length in its message; in either case the call ends with a
  \<^verbatim>\<open>ValueError\<close> and returns no feed dictionary.
\<close>

theorem encode_configuration_errors:
  "(batch_size self = Some b \<and> b < length batch \<longrightarrow>
      encode pack self batch is_train ext = Inl (ValueError (BatchSizeMsg b (length batch))))
   \<and> (max_ques_word_dim self = Some q \<and> (\<exists>doc \<in> set batch. q < length (question doc))
        \<and> (\<forall>b. batch_size self = Some b \<longrightarrow> length batch \<le> b) \<longrightarrow>
        (\<exists>m. encode pack self batch is_train ext = Inl (ValueError (QuesLenMsg m q)) \<and> q < m))
   \<and> (max_ques_word_dim self = Some q \<and> (\<exists>doc \<in> set batch. q < length (question doc)) \<longrightarrow>
        (\<exists>args. encode pack self batch is_train ext = Inl (ValueError args)))"
proof -
  have first: "encode pack self batch is_train ext = Inl (ValueError (BatchSizeMsg b (length batch)))"
    if "batch_size self = Some b" "b < length batch" for b
    using that by (simp add: encode_def padded_batch_size_def split: prod.splits)
  have second: "\<exists>m. encode pack self batch is_train ext = Inl (ValueError (QuesLenMsg m q)) \<and> q < m"
    if q: "max_ques_word_dim self = Some q" and long: "\<exists>doc \<in> set batch. q < length (question doc)"
      and fits: "\<forall>b. batch_size self = Some b \<longrightarrow> length batch \<le> b"
  proof -
    from long obtain doc where doc: "doc \<in> set batch" "q < length (question doc)" by blast
    then have ne: "batch \<noteq> []" by auto
    from fits obtain n where n: "padded_batch_size (batch_size self) (length batch)
                                   (\<lambda>b. BatchSizeMsg b (length batch)) = Inr n"
      by (cases "batch_size self") (auto simp: padded_batch_size_def)
    from context_lengths_nonempty [OF ne] obtain context_len dim
      where cl: "context_lengths self is_train batch = Inr (context_len, dim)" by blast
    let ?ql = "map (\<lambda>x. length (question x)) batch"
    from doc(1) have "length (question doc) \<in> set ?ql" by auto
    from question_dim_too_long [OF this doc(2)]
    have qd: "question_dim (Some q) ?ql = Inl (ValueError (QuesLenMsg (Max (set ?ql)) q))"
      and m: "q < Max (set ?ql)" by simp_all
    have "encode pack self batch is_train ext = Inl (ValueError (QuesLenMsg (Max (set ?ql)) q))"
      using n cl qd q by (simp add: encode_def Let_def split: prod.splits)
    with m show ?thesis by blast
  qed
  have third: "\<exists>args. encode pack self batch is_train ext = Inl (ValueError args)"
    if q: "max_ques_word_dim self = Some q" and long: "\<exists>doc \<in> set batch. q < length (question doc)"
  proof (cases "\<exists>b. batch_size self = Some b \<and> b < length batch")
    case True
    with first show ?thesis by blast
  next
    case False
    then have "\<forall>b. batch_size self = Some b \<longrightarrow> length batch \<le> b" by auto
    from second [OF q long this] show ?thesis by blast
  qed
  from first second third show ?thesis by blast
qed

theorem encode_configuration_errors_witness:
  "batch_size (plain_encoder\<lparr>batch_size := Some 1\<rparr>) = Some 1
   \<and> 1 < length [doc_of_answer None, doc_of_answer None]
   \<and> encode packed_by_length (plain_encoder\<lparr>batch_size := Some 1\<rparr>)
         [doc_of_answer None, doc_of_answer None] True (0, first_draw)
       = Inl (ValueError (BatchSizeMsg 1 (length [doc_of_answer None, doc_of_answer None])))
   \<and> (\<exists>m. encode packed_by_length (plain_encoder\<lparr>max_ques_word_dim := Some 0\<rparr>)
               [doc_of_answer None] True (0, first_draw)
             = Inl (ValueError (QuesLenMsg m 0)) \<and> 0 < m)"
proof -
  let ?two = "[doc_of_answer None, doc_of_answer None]"
  have size: "batch_size (plain_encoder\<lparr>batch_size := Some 1\<rparr>) = Some 1 \<and> 1 < length ?two"
    by simp
  note big = encode_configuration_errors [where self = "plain_encoder\<lparr>batch_size := Some 1\<rparr>"
      and b = 1 and batch = ?two and pack = packed_by_length and is_train = True
      and ext = "(0, first_draw)", THEN conjunct1, rule_format, OF size]
  have long: "max_ques_word_dim (plain_encoder\<lparr>max_ques_word_dim := Some 0\<rparr>) = Some 0
      \<and> (\<exists>doc \<in> set [doc_of_answer None]. 0 < length (question doc))
      \<and> (\<forall>b. batch_size (plain_encoder\<lparr>max_ques_word_dim := Some 0\<rparr>) = Some b
             \<longrightarrow> length [doc_of_answer None] \<le> b)"
    by (simp add: doc_of_answer_def plain_encoder_def)
  note ques = encode_configuration_errors [where self = "plain_encoder\<lparr>max_ques_word_dim := Some 0\<rparr>"
      and q = 0 and batch = "[doc_of_answer None]" and pack = packed_by_length and is_train = True
      and ext = "(0, first_draw)", THEN conjunct2, THEN conjunct1, rule_format, OF long]
  from size big ques show ?thesis by blast
qed

section \<open>The leading dimension of the arrays\<close>

text \<open>
  C1. With a fixed \<open>batch_size\<close> of 2 and a batch of one example, the word buffer of
  \<open>encode\<close> has two rows, and the two length arrays have one entry; the target array of
  \<open>PackedMultiSpanAnswerEncoder.encode\<close>, called with \<open>batch_size = 2\<close>, has one row.
\<close>

theorem length_arrays_and_packed_target_not_padded:
  "map_sum id (\<lambda>r. (length (fd_context_len (fst r)), length (fd_question_len (fst r)),
                     map_option length (fd_context_words (fst r))))
     (encode packed_by_length (plain_encoder\<lparr>batch_size := Some 2\<rparr>) [doc_of_answer None] False
        (0, first_draw))
     = Inr (1, 1, Some 2)
   \<and> map_sum id length
       (packed_encode packed_by_length 2 2 [3] 3 [doc_of_answer (Some (TriviaQaAnswer [(0, 0), (1, 2)]))])
     = Inr 1"
  by code_simp

section \<open>The loops over the words of an example\<close>

lemma for_enumerate_append:
  "for_enumerate body i (xs @ ys) s =
     (case for_enumerate body i xs s of
        Inl e \<Rightarrow> Inl e
      | Inr s' \<Rightarrow> for_enumerate body (i + length xs) ys s')"
  by (induction xs arbitrary: i s) (simp_all split: sum.splits)

lemma truncate_context_acc:
  "truncate_context th k sents acc = acc @ truncate_context th k sents []"
proof (induction sents arbitrary: k acc)
  case Nil
  show ?case by simp
next
  case (Cons sent sents)
  from Cons [of "Suc k" "acc @ sent"] Cons [of "Suc k" sent]
  show ?case by simp
qed

lemma fill_sentence_flat:
  assumes "\<forall>m. max_context_word_dim self = Some m \<longrightarrow> w \<le> m"
  shows "fill_sentence self is_train d sent (w, st) =
     (let ws = (case max_context_word_dim self of None \<Rightarrow> sent | Some m \<Rightarrow> take (m - w) sent) in
      case for_enumerate (context_word_body self is_train d) w ws st of
        Inl e \<Rightarrow> Inl e
      | Inr st' \<Rightarrow> Inr (w + length ws, st'))"
  using assms
proof (induction sent arbitrary: w st)
  case Nil
  show ?case by (simp split: option.splits)
next
  case (Cons word sent)
  show ?case
  proof (cases "max_context_word_dim self")
    case None
    with Cons.IH [of "Suc w"] show ?thesis
      by (simp add: Let_def split: sum.splits)
  next
    case (Some m)
    with Cons.prems have wm: "w \<le> m" by simp
    show ?thesis
    proof (cases "w = m")
      case True
      with Some show ?thesis by simp
    next
      case False
      with wm have lt: "w < m" by simp
      then have "m - w = Suc (m - Suc w)" by simp
      then have tk: "take (m - w) (word # sent) = word # take (m - Suc w) sent"
        by simp
      from lt have "\<forall>m'. max_context_word_dim self = Some m' \<longrightarrow> Suc w \<le> m'"
        using Some by simp
      from Cons.IH [OF this] Some False tk show ?thesis
        by (simp add: Let_def split: sum.splits)
    qed
  qed
qed


lemma fill_context_flat:
  assumes "\<forall>m. max_context_word_dim self = Some m \<longrightarrow> w \<le> m"
  shows "fill_context self is_train d k sents (w, st) =
     (let flat = truncate_context (sent_size_th self) k sents [];
          ws = (case max_context_word_dim self of None \<Rightarrow> flat | Some m \<Rightarrow> take (m - w) flat) in
      case for_enumerate (context_word_body self is_train d) w ws st of
        Inl e \<Rightarrow> Inl e
      | Inr st' \<Rightarrow> Inr (w + length ws, st'))"
  using assms
proof (induction sents arbitrary: k w st)
  case Nil
  show ?case by (simp split: option.splits)
next
  case (Cons sent sents)
  show ?case
  proof (cases "sent_size_th self = Some k")
    case True
    then show ?thesis by (simp split: option.splits)
  next
    case False
    let ?rest = "truncate_context (sent_size_th self) (Suc k) sents []"
    have flat: "truncate_context (sent_size_th self) k (sent # sents) [] = sent @ ?rest"
      using False truncate_context_acc [of "sent_size_th self" "Suc k" sents sent] by auto
    show ?thesis
    proof (cases "max_context_word_dim self")
      case None
      have sentence: "fill_sentence self is_train d sent (w, st) =
          (case for_enumerate (context_word_body self is_train d) w sent st of
             Inl e \<Rightarrow> Inl e | Inr st' \<Rightarrow> Inr (w + length sent, st'))"
        using fill_sentence_flat [of self w is_train d sent st] None by (simp add: Let_def)
      have later: "\<And>w' st'. fill_context self is_train d (Suc k) sents (w', st') =
          (case for_enumerate (context_word_body self is_train d) w' ?rest st' of
             Inl e \<Rightarrow> Inl e | Inr st'' \<Rightarrow> Inr (w' + length ?rest, st''))"
        using Cons.IH None by (simp add: Let_def)
      show ?thesis
        using False None flat sentence later
        by (simp add: for_enumerate_append Let_def add.assoc split: sum.splits)
    next
      case (Some m)
      with Cons.prems have wm: "w \<le> m" by simp
      let ?here = "take (m - w) sent"
      have sentence: "fill_sentence self is_train d sent (w, st) =
          (case for_enumerate (context_word_body self is_train d) w ?here st of
             Inl e \<Rightarrow> Inl e | Inr st' \<Rightarrow> Inr (w + length ?here, st'))"
        using fill_sentence_flat [of self w is_train d sent st] Some wm by (simp add: Let_def)
      have next_le: "w + length ?here \<le> m" using wm by simp
      have later: "\<And>w' st'. w' \<le> m \<Longrightarrow> fill_context self is_train d (Suc k) sents (w', st') =
          (case for_enumerate (context_word_body self is_train d) w' (take (m - w') ?rest) st' of
             Inl e \<Rightarrow> Inl e
           | Inr st'' \<Rightarrow> Inr (w' + length (take (m - w') ?rest), st''))"
        using Cons.IH Some by (simp add: Let_def)
      have split_take: "take (m - w) (sent @ ?rest) = ?here @ take (m - (w + length ?here)) ?rest"
        by (simp add: min_def)
      show ?thesis
        using False Some flat sentence later [OF next_le] split_take
        by (simp add: for_enumerate_append Let_def add.assoc split: sum.splits)
    qed
  qed
qed

lemma resolve_table:
  assumes "resolve to_ix new_placeholder is_train word table s = (v, table', s')"
  shows "table \<subseteq>\<^sub>m table'
         \<and> (to_ix word < 0 \<longrightarrow> table' (lower word) = Some v)
         \<and> (0 \<le> to_ix word \<longrightarrow> v = to_ix word \<and> table' = table)"
proof (cases "to_ix word < 0")
  case False
  with assms show ?thesis by (simp add: resolve_def Let_def)
next
  case True
  show ?thesis
  proof (cases "table (lower word)")
    case (Some p)
    with True assms show ?thesis by (simp add: resolve_def Let_def)
  next
    case None
    with True assms have "table' = table(lower word \<mapsto> v)"
      by (auto simp: resolve_def Let_def split: prod.splits)
    with None True show ?thesis by (auto simp: map_le_def)
  qed
qed

lemma fill_chars_Inr:
  assumes "fill_chars to_ix char_dim d w c cs arr = Inr arr'"
  shows "\<exists>crow. arr' = arr[d := (arr ! d)[w := crow]] \<and> length crow = length (arr ! d ! w)"
  using assms
proof (induction cs arbitrary: c arr)
  case Nil
  then have "arr' = arr[d := (arr ! d)[w := arr ! d ! w]]" by simp
  then show ?case by blast
next
  case (Cons x cs)
  show ?case
  proof (cases "c = char_dim")
    case True
    with Cons.prems have "arr' = arr[d := (arr ! d)[w := arr ! d ! w]]" by simp
    then show ?thesis by blast
  next
    case False
    let ?arr1 = "arr[d := (arr ! d)[w := (arr ! d ! w)[c := to_ix x]]]"
    from False Cons.prems have inr: "d < length arr" "w < length (arr ! d)"
      and rest: "fill_chars to_ix char_dim d w (Suc c) cs ?arr1 = Inr arr'"
      by (auto simp: set3_def split: if_splits)
    from Cons.IH [OF rest] obtain crow where
      c: "arr' = ?arr1[d := (?arr1 ! d)[w := crow]]" "length crow = length (?arr1 ! d ! w)"
      by blast
    from inr c(1) have "arr' = arr[d := (arr ! d)[w := crow]]" by simp
    moreover from inr c(2) have "length crow = length (arr ! d ! w)" by simp
    ultimately show ?thesis by blast
  qed
qed

lemma context_word_body_Inr:
  assumes "context_word_body self is_train d w word st = Inr st'"
  shows "\<exists>v crow.
           context_words st' = (context_words st)[d := (context_words st ! d)[w := v]]
         \<and> context_chars st' = (context_chars st)[d := (context_chars st ! d)[w := crow]]
         \<and> length crow = length (context_chars st ! d ! w)
         \<and> question_words st' = question_words st \<and> question_chars st' = question_chars st
         \<and> placeholders st \<subseteq>\<^sub>m placeholders st'
         \<and> (\<forall>we. word_embedder self = Some we \<longrightarrow>
               d < length (context_words st) \<and> w < length (context_words st ! d)
               \<and> (context_word_to_ix we word < 0 \<longrightarrow> placeholders st' (lower word) = Some v)
               \<and> (0 \<le> context_word_to_ix we word \<longrightarrow> v = context_word_to_ix we word))"
proof -
  obtain st1 where words: "(case word_embedder self of
              None \<Rightarrow> Inr st
            | Some we \<Rightarrow>
                (case resolve (context_word_to_ix we) (get_placeholder we) is_train word
                        (placeholders st) (emb_state st) of
                   (ix, table, s) \<Rightarrow>
                     (case set2 d w ix (context_words st) of
                        Inl e \<Rightarrow> Inl e
                      | Inr arr \<Rightarrow>
                          Inr (st\<lparr>placeholders := table, emb_state := s, context_words := arr\<rparr>)))) = Inr st1"
    and chars: "(case char_emb self of
             None \<Rightarrow> Inr st1
           | Some ce \<Rightarrow>
               (case fill_chars (char_to_ix ce) (max_char_dim self) d w 0 word (context_chars st1) of
                  Inl e \<Rightarrow> Inl e
                | Inr arr \<Rightarrow> Inr (st1\<lparr>context_chars := arr\<rparr>))) = Inr st'"
    using assms unfolding context_word_body_def by (auto split: sum.splits)
  have w: "\<exists>v. context_words st1 = (context_words st)[d := (context_words st ! d)[w := v]]
         \<and> context_chars st1 = context_chars st
         \<and> question_words st1 = question_words st \<and> question_chars st1 = question_chars st
         \<and> placeholders st \<subseteq>\<^sub>m placeholders st1
         \<and> (\<forall>we. word_embedder self = Some we \<longrightarrow>
               d < length (context_words st) \<and> w < length (context_words st ! d)
               \<and> (context_word_to_ix we word < 0 \<longrightarrow> placeholders st1 (lower word) = Some v)
               \<and> (0 \<le> context_word_to_ix we word \<longrightarrow> v = context_word_to_ix we word))"
  proof (cases "word_embedder self")
    case None
    with words have "st1 = st" by simp
    with None show ?thesis
      by (intro exI [of _ "context_words st ! d ! w"]) simp
  next
    case (Some we)
    obtain v table s where r: "resolve (context_word_to_ix we) (get_placeholder we) is_train word
                        (placeholders st) (emb_state st) = (v, table, s)"
      by (cases "resolve (context_word_to_ix we) (get_placeholder we) is_train word
                        (placeholders st) (emb_state st)") auto
    from words Some r have inr: "d < length (context_words st)" "w < length (context_words st ! d)"
      and st1: "st1 = st\<lparr>placeholders := table, emb_state := s,
                         context_words := (context_words st)[d := (context_words st ! d)[w := v]]\<rparr>"
      by (auto simp: set2_def split: if_splits)
    from resolve_table [OF r] st1 inr Some show ?thesis by auto
  qed
  have c: "\<exists>crow. context_chars st' = (context_chars st1)[d := (context_chars st1 ! d)[w := crow]]
         \<and> length crow = length (context_chars st1 ! d ! w)
         \<and> context_words st' = context_words st1
         \<and> question_words st' = question_words st1 \<and> question_chars st' = question_chars st1
         \<and> placeholders st' = placeholders st1"
  proof (cases "char_emb self")
    case None
    with chars have "st' = st1" by simp
    then show ?thesis
      by (intro exI [of _ "context_chars st1 ! d ! w"]) simp
  next
    case (Some ce)
    with chars obtain arr where f: "fill_chars (char_to_ix ce) (max_char_dim self) d w 0 word (context_chars st1) = Inr arr"
      and st': "st' = st1\<lparr>context_chars := arr\<rparr>"
      by (auto split: sum.splits)
    from fill_chars_Inr [OF f] st' show ?thesis by auto
  qed
  from w c show ?thesis by (metis (no_types, lifting))
qed

lemma question_word_body_Inr:
  assumes "question_word_body self is_train d w word st = Inr st'"
  shows "\<exists>v crow.
           question_words st' = (question_words st)[d := (question_words st ! d)[w := v]]
         \<and> question_chars st' = (question_chars st)[d := (question_chars st ! d)[w := crow]]
         \<and> length crow = length (question_chars st ! d ! w)
         \<and> context_words st' = context_words st \<and> context_chars st' = context_chars st
         \<and> placeholders st \<subseteq>\<^sub>m placeholders st'
         \<and> (\<forall>we. word_embedder self = Some we \<longrightarrow>
               d < length (question_words st) \<and> w < length (question_words st ! d)
               \<and> (question_word_to_ix we word < 0 \<longrightarrow> placeholders st' (lower word) = Some v)
               \<and> (0 \<le> question_word_to_ix we word \<longrightarrow> v = question_word_to_ix we word))"
proof -
  obtain st1 where words: "(case word_embedder self of
              None \<Rightarrow> Inr st
            | Some we \<Rightarrow>
                (case resolve (question_word_to_ix we) (get_placeholder we) is_train word
                        (placeholders st) (emb_state st) of
                   (ix, table, s) \<Rightarrow>
                     (case set2 d w ix (question_words st) of
                        Inl e \<Rightarrow> Inl e
                      | Inr arr \<Rightarrow>
                          Inr (st\<lparr>placeholders := table, emb_state := s, question_words := arr\<rparr>)))) = Inr st1"
    and chars: "(case char_emb self of
             None \<Rightarrow> Inr st1
           | Some ce \<Rightarrow>
               (case fill_chars (char_to_ix ce) (max_char_dim self) d w 0 word (question_chars st1) of
                  Inl e \<Rightarrow> Inl e
                | Inr arr \<Rightarrow> Inr (st1\<lparr>question_chars := arr\<rparr>))) = Inr st'"
    using assms unfolding question_word_body_def by (auto split: sum.splits)
  have w: "\<exists>v. question_words st1 = (question_words st)[d := (question_words st ! d)[w := v]]
         \<and> question_chars st1 = question_chars st
         \<and> context_words st1 = context_words st \<and> context_chars st1 = context_chars st
         \<and> placeholders st \<subseteq>\<^sub>m placeholders st1
         \<and> (\<forall>we. word_embedder self = Some we \<longrightarrow>
               d < length (question_words st) \<and> w < length (question_words st ! d)
               \<and> (question_word_to_ix we word < 0 \<longrightarrow> placeholders st1 (lower word) = Some v)
               \<and> (0 \<le> question_word_to_ix we word \<longrightarrow> v = question_word_to_ix we word))"
  proof (cases "word_embedder self")
    case None
    with words have "st1 = st" by simp
    with None show ?thesis
      by (intro exI [of _ "question_words st ! d ! w"]) simp
  next
    case (Some we)
    obtain v table s where r: "resolve (question_word_to_ix we) (get_placeholder we) is_train word
                        (placeholders st) (emb_state st) = (v, table, s)"
      by (cases "resolve (question_word_to_ix we) (get_placeholder we) is_train word
                        (placeholders st) (emb_state st)") auto
    from words Some r have inr: "d < length (question_words st)" "w < length (question_words st ! d)"
      and st1: "st1 = st\<lparr>placeholders := table, emb_state := s,
                         question_words := (question_words st)[d := (question_words st ! d)[w := v]]\<rparr>"
      by (auto simp: set2_def split: if_splits)
    from resolve_table [OF r] st1 inr Some show ?thesis by auto
  qed
  have c: "\<exists>crow. question_chars st' = (question_chars st1)[d := (question_chars st1 ! d)[w := crow]]
         \<and> length crow = length (question_chars st1 ! d ! w)
         \<and> question_words st' = question_words st1
         \<and> context_words st' = context_words st1 \<and> context_chars st' = context_chars st1
         \<and> placeholders st' = placeholders st1"
  proof (cases "char_emb self")
    case None
    with chars have "st' = st1" by simp
    then show ?thesis
      by (intro exI [of _ "question_chars st1 ! d ! w"]) simp
  next
    case (Some ce)
    with chars obtain arr where f: "fill_chars (char_to_ix ce) (max_char_dim self) d w 0 word (question_chars st1) = Inr arr"
      and st': "st' = st1\<lparr>question_chars := arr\<rparr>"
      by (auto split: sum.splits)
    from fill_chars_Inr [OF f] st' show ?thesis by auto
  qed
  from w c show ?thesis by (metis (no_types, lifting))
qed

lemma point_update:
  assumes "arr' = arr[d := (arr ! d)[w := v]]"
  shows "length arr' = length arr"
    and "\<And>i. i \<noteq> d \<Longrightarrow> arr' ! i = arr ! i"
    and "length (arr' ! d) = length (arr ! d)"
    and "\<And>j. j \<noteq> w \<Longrightarrow> arr' ! d ! j = arr ! d ! j"
    and "d < length arr \<Longrightarrow> w < length (arr ! d) \<Longrightarrow> arr' ! d ! w = v"
proof -
  show "length arr' = length arr" using assms by simp
  show "\<And>i. i \<noteq> d \<Longrightarrow> arr' ! i = arr ! i" using assms by simp
  show "length (arr' ! d) = length (arr ! d)"
    using assms by (cases "d < length arr") (simp_all add: list_update_beyond)
  show "\<And>j. j \<noteq> w \<Longrightarrow> arr' ! d ! j = arr ! d ! j"
    using assms by (cases "d < length arr") (simp_all add: list_update_beyond)
  show "d < length arr \<Longrightarrow> w < length (arr ! d) \<Longrightarrow> arr' ! d ! w = v"
    using assms by simp
qed

lemma context_loop_frame:
  fixes st :: "'s fill_state"
  assumes loop: "for_enumerate (context_word_body self is_train d) w0 ws st = Inr st'"
  shows "question_words st' = question_words st \<and> question_chars st' = question_chars st
       \<and> placeholders st \<subseteq>\<^sub>m placeholders st'
       \<and> length (context_words st') = length (context_words st)
       \<and> (\<forall>i. i \<noteq> d \<longrightarrow> context_words st' ! i = context_words st ! i)
       \<and> length (context_words st' ! d) = length (context_words st ! d)
       \<and> (\<forall>j. j < w0 \<or> w0 + length ws \<le> j \<longrightarrow> context_words st' ! d ! j = context_words st ! d ! j)
       \<and> length (context_chars st') = length (context_chars st)
       \<and> (\<forall>i. i \<noteq> d \<longrightarrow> context_chars st' ! i = context_chars st ! i)
       \<and> length (context_chars st' ! d) = length (context_chars st ! d)
       \<and> (\<forall>j. j < w0 \<or> w0 + length ws \<le> j \<longrightarrow> context_chars st' ! d ! j = context_chars st ! d ! j)"
proof -
  define I where "I = (\<lambda>k (s :: 's fill_state).
         question_words s = question_words st \<and> question_chars s = question_chars st
       \<and> placeholders st \<subseteq>\<^sub>m placeholders s
       \<and> length (context_words s) = length (context_words st)
       \<and> (\<forall>i. i \<noteq> d \<longrightarrow> context_words s ! i = context_words st ! i)
       \<and> length (context_words s ! d) = length (context_words st ! d)
       \<and> (\<forall>j. j < w0 \<or> w0 + k \<le> j \<longrightarrow> context_words s ! d ! j = context_words st ! d ! j)
       \<and> length (context_chars s) = length (context_chars st)
       \<and> (\<forall>i. i \<noteq> d \<longrightarrow> context_chars s ! i = context_chars st ! i)
       \<and> length (context_chars s ! d) = length (context_chars st ! d)
       \<and> (\<forall>j. j < w0 \<or> w0 + k \<le> j \<longrightarrow> context_chars s ! d ! j = context_chars st ! d ! j))"
  have "I (length ws) st'"
  proof (rule for_enumerate_invariant [OF loop])
    show "I 0 st" by (simp add: I_def)
  next
    fix k s t
    assume k: "k < length ws" and inv: "I k s"
      and body: "context_word_body self is_train d (w0 + k) (ws ! k) s = Inr t"
    from context_word_body_Inr [OF body] obtain v crow where
      cw: "context_words t = (context_words s)[d := (context_words s ! d)[w0 + k := v]]"
      and cc: "context_chars t = (context_chars s)[d := (context_chars s ! d)[w0 + k := crow]]"
      and q: "question_words t = question_words s" "question_chars t = question_chars s"
      and ph: "placeholders s \<subseteq>\<^sub>m placeholders t"
      by blast
    note w = point_update [OF cw] and c = point_update [OF cc]
    show "I (Suc k) t"
      unfolding I_def
    proof (intro conjI allI impI)
      show "question_words t = question_words st" using q inv by (simp add: I_def)
      show "question_chars t = question_chars st" using q inv by (simp add: I_def)
      show "placeholders st \<subseteq>\<^sub>m placeholders t"
        using ph inv map_le_trans by (auto simp: I_def)
      show "length (context_words t) = length (context_words st)" using w(1) inv by (simp add: I_def)
      show "length (context_words t ! d) = length (context_words st ! d)"
        using w(3) inv by (simp add: I_def)
      show "length (context_chars t) = length (context_chars st)" using c(1) inv by (simp add: I_def)
      show "length (context_chars t ! d) = length (context_chars st ! d)"
        using c(3) inv by (simp add: I_def)
    next
      fix i assume "i \<noteq> d"
      then show "context_words t ! i = context_words st ! i" using w(2) inv by (simp add: I_def)
    next
      fix i assume "i \<noteq> d"
      then show "context_chars t ! i = context_chars st ! i" using c(2) inv by (simp add: I_def)
    next
      fix j assume j: "j < w0 \<or> w0 + Suc k \<le> j"
      then have "j \<noteq> w0 + k" by auto
      then have "context_words t ! d ! j = context_words s ! d ! j" by (rule w(4))
      moreover from j inv have "context_words s ! d ! j = context_words st ! d ! j"
        by (auto simp: I_def)
      ultimately show "context_words t ! d ! j = context_words st ! d ! j" by simp
    next
      fix j assume j: "j < w0 \<or> w0 + Suc k \<le> j"
      then have "j \<noteq> w0 + k" by auto
      then have "context_chars t ! d ! j = context_chars s ! d ! j" by (rule c(4))
      moreover from j inv have "context_chars s ! d ! j = context_chars st ! d ! j"
        by (auto simp: I_def)
      ultimately show "context_chars t ! d ! j = context_chars st ! d ! j" by simp
    qed
  qed
  then show ?thesis by (simp add: I_def)
qed


lemma question_loop_frame:
  fixes st :: "'s fill_state"
  assumes loop: "for_enumerate (question_word_body self is_train d) w0 ws st = Inr st'"
  shows "context_words st' = context_words st \<and> context_chars st' = context_chars st
       \<and> placeholders st \<subseteq>\<^sub>m placeholders st'
       \<and> length (question_words st') = length (question_words st)
       \<and> (\<forall>i. i \<noteq> d \<longrightarrow> question_words st' ! i = question_words st ! i)
       \<and> length (question_words st' ! d) = length (question_words st ! d)
       \<and> (\<forall>j. j < w0 \<or> w0 + length ws \<le> j \<longrightarrow> question_words st' ! d ! j = question_words st ! d ! j)
       \<and> length (question_chars st') = length (question_chars st)
       \<and> (\<forall>i. i \<noteq> d \<longrightarrow> question_chars st' ! i = question_chars st ! i)
       \<and> length (question_chars st' ! d) = length (question_chars st ! d)
       \<and> (\<forall>j. j < w0 \<or> w0 + length ws \<le> j \<longrightarrow> question_chars st' ! d ! j = question_chars st ! d ! j)"
proof -
  define I where "I = (\<lambda>k (s :: 's fill_state).
         context_words s = context_words st \<and> context_chars s = context_chars st
       \<and> placeholders st \<subseteq>\<^sub>m placeholders s
       \<and> length (question_words s) = length (question_words st)
       \<and> (\<forall>i. i \<noteq> d \<longrightarrow> question_words s ! i = question_words st ! i)
       \<and> length (question_words s ! d) = length (question_words st ! d)
       \<and> (\<forall>j. j < w0 \<or> w0 + k \<le> j \<longrightarrow> question_words s ! d ! j = question_words st ! d ! j)
       \<and> length (question_chars s) = length (question_chars st)
       \<and> (\<forall>i. i \<noteq> d \<longrightarrow> question_chars s ! i = question_chars st ! i)
       \<and> length (question_chars s ! d) = length (question_chars st ! d)
       \<and> (\<forall>j. j < w0 \<or> w0 + k \<le> j \<longrightarrow> question_chars s ! d ! j = question_chars st ! d ! j))"
  have "I (length ws) st'"
  proof (rule for_enumerate_invariant [OF loop])
    show "I 0 st" by (simp add: I_def)
  next
    fix k s t
    assume k: "k < length ws" and inv: "I k s"
      and body: "question_word_body self is_train d (w0 + k) (ws ! k) s = Inr t"
    from question_word_body_Inr [OF body] obtain v crow where
      cw: "question_words t = (question_words s)[d := (question_words s ! d)[w0 + k := v]]"
      and cc: "question_chars t = (question_chars s)[d := (question_chars s ! d)[w0 + k := crow]]"
      and q: "context_words t = context_words s" "context_chars t = context_chars s"
      and ph: "placeholders s \<subseteq>\<^sub>m placeholders t"
      by blast
    note w = point_update [OF cw] and c = point_update [OF cc]
    show "I (Suc k) t"
      unfolding I_def
    proof (intro conjI allI impI)
      show "context_words t = context_words st" using q inv by (simp add: I_def)
      show "context_chars t = context_chars st" using q inv by (simp add: I_def)
      show "placeholders st \<subseteq>\<^sub>m placeholders t"
        using ph inv map_le_trans by (auto simp: I_def)
      show "length (question_words t) = length (question_words st)" using w(1) inv by (simp add: I_def)
      show "length (question_words t ! d) = length (question_words st ! d)"
        using w(3) inv by (simp add: I_def)
      show "length (question_chars t) = length (question_chars st)" using c(1) inv by (simp add: I_def)
      show "length (question_chars t ! d) = length (question_chars st ! d)"
        using c(3) inv by (simp add: I_def)
    next
      fix i assume "i \<noteq> d"
      then show "question_words t ! i = question_words st ! i" using w(2) inv by (simp add: I_def)
    next
      fix i assume "i \<noteq> d"
      then show "question_chars t ! i = question_chars st ! i" using c(2) inv by (simp add: I_def)
    next
      fix j assume j: "j < w0 \<or> w0 + Suc k \<le> j"
      then have "j \<noteq> w0 + k" by auto
      then have "question_words t ! d ! j = question_words s ! d ! j" by (rule w(4))
      moreover from j inv have "question_words s ! d ! j = question_words st ! d ! j"
        by (auto simp: I_def)
      ultimately show "question_words t ! d ! j = question_words st ! d ! j" by simp
    next
      fix j assume j: "j < w0 \<or> w0 + Suc k \<le> j"
      then have "j \<noteq> w0 + k" by auto
      then have "question_chars t ! d ! j = question_chars s ! d ! j" by (rule c(4))
      moreover from j inv have "question_chars s ! d ! j = question_chars st ! d ! j"
        by (auto simp: I_def)
      ultimately show "question_chars t ! d ! j = question_chars st ! d ! j" by simp
    qed
  qed
  then show ?thesis by (simp add: I_def)
qed


lemma encode_doc_split:
  assumes "encode_doc self is_train d doc st = Inr st'"
  shows "\<exists>st1.
      for_enumerate (question_word_body self is_train d) 0 (question doc)
        (st\<lparr>placeholders := Map.empty\<rparr>) = Inr st1
    \<and> for_enumerate (context_word_body self is_train d) 0
        (slice_to (max_context_word_dim self)
           (truncate_context (sent_size_th self) 0 (para_context doc) [])) st1 = Inr st'"
proof -
  from assms obtain st1 wix where
    q: "for_enumerate (question_word_body self is_train d) 0 (question doc)
          (st\<lparr>placeholders := Map.empty\<rparr>) = Inr st1"
    and c: "fill_context self is_train d 0 (para_context doc) (0, st1) = Inr (wix, st')"
    by (auto simp: encode_doc_def split: sum.splits)
  have "\<forall>m. max_context_word_dim self = Some m \<longrightarrow> 0 \<le> m" by simp
  from fill_context_flat [OF this, of is_train d 0 "para_context doc" st1] c
  have "for_enumerate (context_word_body self is_train d) 0
        (slice_to (max_context_word_dim self)
           (truncate_context (sent_size_th self) 0 (para_context doc) [])) st1 = Inr st'"
    by (auto simp: Let_def slice_to_def split: sum.splits option.splits)
  with q show ?thesis by blast
qed

lemma encode_doc_frame:
  fixes st :: "'s fill_state"
  assumes enc: "encode_doc self is_train d doc st = Inr st'"
    and ws: "ws = slice_to (max_context_word_dim self)
                    (truncate_context (sent_size_th self) 0 (para_context doc) [])"
  shows "length (question_words st') = length (question_words st)
       \<and> (\<forall>i. i \<noteq> d \<longrightarrow> question_words st' ! i = question_words st ! i)
       \<and> length (question_words st' ! d) = length (question_words st ! d)
       \<and> (\<forall>j. length (question doc) \<le> j \<longrightarrow> question_words st' ! d ! j = question_words st ! d ! j)
       \<and> length (question_chars st') = length (question_chars st)
       \<and> (\<forall>i. i \<noteq> d \<longrightarrow> question_chars st' ! i = question_chars st ! i)
       \<and> length (question_chars st' ! d) = length (question_chars st ! d)
       \<and> (\<forall>j. length (question doc) \<le> j \<longrightarrow> question_chars st' ! d ! j = question_chars st ! d ! j)
       \<and> length (context_words st') = length (context_words st)
       \<and> (\<forall>i. i \<noteq> d \<longrightarrow> context_words st' ! i = context_words st ! i)
       \<and> length (context_words st' ! d) = length (context_words st ! d)
       \<and> (\<forall>j. length ws \<le> j \<longrightarrow> context_words st' ! d ! j = context_words st ! d ! j)
       \<and> length (context_chars st') = length (context_chars st)
       \<and> (\<forall>i. i \<noteq> d \<longrightarrow> context_chars st' ! i = context_chars st ! i)
       \<and> length (context_chars st' ! d) = length (context_chars st ! d)
       \<and> (\<forall>j. length ws \<le> j \<longrightarrow> context_chars st' ! d ! j = context_chars st ! d ! j)"
proof -
  let ?st0 = "st\<lparr>placeholders := Map.empty\<rparr>"
  from encode_doc_split [OF enc] ws obtain st1 where
    q: "for_enumerate (question_word_body self is_train d) 0 (question doc) ?st0 = Inr st1"
    and c: "for_enumerate (context_word_body self is_train d) 0 ws st1 = Inr st'"
    by blast
  note qf = question_loop_frame [OF q] and cf = context_loop_frame [OF c]
  from qf cf show ?thesis by simp
qed


section \<open>The loop over the batch\<close>

lemma batch_loop_frame:
  fixes st0 :: "'s fill_state"
  assumes loop: "for_enumerate (encode_doc self is_train) 0 batch st0 = Inr st"
  shows "length (context_words st) = length (context_words st0)
       \<and> (\<forall>i. length (context_words st ! i) = length (context_words st0 ! i))
       \<and> (\<forall>i < length batch. \<forall>j.
             length (slice_to (max_context_word_dim self)
                       (truncate_context (sent_size_th self) 0 (para_context (batch ! i)) [])) \<le> j
             \<longrightarrow> context_words st ! i ! j = context_words st0 ! i ! j)
       \<and> length (context_chars st) = length (context_chars st0)
       \<and> (\<forall>i. length (context_chars st ! i) = length (context_chars st0 ! i))
       \<and> (\<forall>i < length batch. \<forall>j.
             length (slice_to (max_context_word_dim self)
                       (truncate_context (sent_size_th self) 0 (para_context (batch ! i)) [])) \<le> j
             \<longrightarrow> context_chars st ! i ! j = context_chars st0 ! i ! j)"
proof -
  define ws where "ws = (\<lambda>i. slice_to (max_context_word_dim self)
                       (truncate_context (sent_size_th self) 0 (para_context (batch ! i)) []))"
  define I where "I = (\<lambda>k (s :: 's fill_state).
         length (context_words s) = length (context_words st0)
       \<and> (\<forall>i. length (context_words s ! i) = length (context_words st0 ! i))
       \<and> (\<forall>i. k \<le> i \<longrightarrow> context_words s ! i = context_words st0 ! i)
       \<and> (\<forall>i < k. \<forall>j. length (ws i) \<le> j \<longrightarrow> context_words s ! i ! j = context_words st0 ! i ! j)
       \<and> length (context_chars s) = length (context_chars st0)
       \<and> (\<forall>i. length (context_chars s ! i) = length (context_chars st0 ! i))
       \<and> (\<forall>i. k \<le> i \<longrightarrow> context_chars s ! i = context_chars st0 ! i)
       \<and> (\<forall>i < k. \<forall>j. length (ws i) \<le> j \<longrightarrow> context_chars s ! i ! j = context_chars st0 ! i ! j))"
  have "I (length batch) st"
  proof (rule for_enumerate_invariant [OF loop])
    show "I 0 st0" by (simp add: I_def)
  next
    fix k s t
    assume k: "k < length batch" and inv: "I k s"
      and body: "encode_doc self is_train (0 + k) (batch ! k) s = Inr t"
    from body have body': "encode_doc self is_train k (batch ! k) s = Inr t" by simp
    note f = encode_doc_frame [OF body' ws_def [THEN fun_cong, of k]]
    from f have w1: "length (context_words t) = length (context_words s)"
      and w2: "\<forall>i. i \<noteq> k \<longrightarrow> context_words t ! i = context_words s ! i"
      and w3: "length (context_words t ! k) = length (context_words s ! k)"
      and w4: "\<forall>j. length (ws k) \<le> j \<longrightarrow> context_words t ! k ! j = context_words s ! k ! j"
      and c1: "length (context_chars t) = length (context_chars s)"
      and c2: "\<forall>i. i \<noteq> k \<longrightarrow> context_chars t ! i = context_chars s ! i"
      and c3: "length (context_chars t ! k) = length (context_chars s ! k)"
      and c4: "\<forall>j. length (ws k) \<le> j \<longrightarrow> context_chars t ! k ! j = context_chars s ! k ! j"
      by simp_all
    from inv have i1: "length (context_words s) = length (context_words st0)"
      and i2: "\<forall>i. length (context_words s ! i) = length (context_words st0 ! i)"
      and i3: "\<forall>i. k \<le> i \<longrightarrow> context_words s ! i = context_words st0 ! i"
      and i4: "\<forall>i < k. \<forall>j. length (ws i) \<le> j \<longrightarrow> context_words s ! i ! j = context_words st0 ! i ! j"
      and j1: "length (context_chars s) = length (context_chars st0)"
      and j2: "\<forall>i. length (context_chars s ! i) = length (context_chars st0 ! i)"
      and j3: "\<forall>i. k \<le> i \<longrightarrow> context_chars s ! i = context_chars st0 ! i"
      and j4: "\<forall>i < k. \<forall>j. length (ws i) \<le> j \<longrightarrow> context_chars s ! i ! j = context_chars st0 ! i ! j"
      by (simp_all add: I_def)
    show "I (Suc k) t"
      unfolding I_def
    proof (intro conjI allI impI)
      show "length (context_words t) = length (context_words st0)" using w1 i1 by simp
      show "length (context_chars t) = length (context_chars st0)" using c1 j1 by simp
    next
      fix i show "length (context_words t ! i) = length (context_words st0 ! i)"
        using w2 w3 i2 by (cases "i = k") simp_all
    next
      fix i show "length (context_chars t ! i) = length (context_chars st0 ! i)"
        using c2 c3 j2 by (cases "i = k") simp_all
    next
      fix i assume "Suc k \<le> i"
      then show "context_words t ! i = context_words st0 ! i" using w2 i3 by simp
    next
      fix i assume "Suc k \<le> i"
      then show "context_chars t ! i = context_chars st0 ! i" using c2 j3 by simp
    next
      fix i j assume "i < Suc k" "length (ws i) \<le> j"
      then show "context_words t ! i ! j = context_words st0 ! i ! j"
        using w2 w4 i3 i4 by (cases "i = k") simp_all
    next
      fix i j assume "i < Suc k" "length (ws i) \<le> j"
      then show "context_chars t ! i ! j = context_chars st0 ! i ! j"
        using c2 c4 j3 j4 by (cases "i = k") simp_all
    qed
  qed
  then show ?thesis by (simp add: I_def ws_def)
qed

lemma encode_Inr:
  assumes "encode pack self batch is_train (s, g) = Inr (fd, s', g')"
  shows "\<exists>n context_len dim qdim st.
      padded_batch_size (batch_size self) (length batch) (\<lambda>b. BatchSizeMsg b (length batch)) = Inr n
    \<and> context_lengths self is_train batch = Inr (context_len, dim)
    \<and> question_dim (max_ques_word_dim self) (map (\<lambda>x. length (question x)) batch) = Inr qdim
    \<and> for_enumerate (encode_doc self is_train) 0 batch
         \<lparr>placeholders = Map.empty, emb_state = s,
          question_words =
            (if word_embedder self = None then [] else replicate n (replicate qdim 0)),
          question_chars =
            (if char_emb self = None then []
             else replicate n (replicate qdim (replicate (max_char_dim self) 0))),
          context_words =
            (if word_embedder self = None then [] else replicate n (replicate dim 0)),
          context_chars =
            (if char_emb self = None then []
             else replicate n (replicate dim (replicate (max_char_dim self) 0)))\<rparr> = Inr st
    \<and> fd_context_len fd = context_len
    \<and> fd_question_len fd = map (\<lambda>x. length (question x)) batch
    \<and> fd_context_words fd = (if word_embedder self = None then None else Some (context_words st))
    \<and> fd_question_words fd = (if word_embedder self = None then None else Some (question_words st))
    \<and> fd_context_chars fd = (if char_emb self = None then None else Some (context_chars st))
    \<and> fd_question_chars fd = (if char_emb self = None then None else Some (question_chars st))"
  using assms unfolding encode_def Let_def
  by (auto split: sum.splits prod.splits)

lemma padded_batch_size_Inr:
  "padded_batch_size fixed n args = Inr m \<Longrightarrow> n \<le> m"
  by (auto simp: padded_batch_size_def split: option.splits if_splits)

lemma context_lengths_eval:
  assumes "context_lengths self False batch = Inr (context_len, dim)"
  shows "context_len = map (\<lambda>doc. sum_list (map length (para_context doc))) batch
         \<and> (\<forall>x \<in> set context_len. x \<le> dim)"
proof -
  let ?cl = "map (\<lambda>doc. sum_list (map length (para_context doc))) batch"
  from assms have cl: "context_len = ?cl" and m: "np_max ?cl = Inr dim"
    by (auto simp: context_lengths_def Let_def split: sum.splits)
  from m have "?cl \<noteq> []" by auto
  from np_max_nonempty [OF this] m have "dim = Max (set ?cl)" by simp
  with cl show ?thesis by simp
qed

section \<open>Lengths reported outside training\<close>

text \<open>
  C9. With \<open>is_train\<close> false and a maximum context dimension \<open>m\<close>, a returning call reports
  for every example the full length of its flattened context; the example's row of context
  words, when the array is fed, is at least that long and is zero at every position from
  \<open>m\<close> on, and its row of context characters holds only zero rows from \<open>m\<close> on. For an
  example longer than \<open>m\<close> the reported length is therefore larger than the number of
  positions that were written.
\<close>

theorem evaluation_length_exceeds_filled_positions:
  "encode pack self batch False ext = Inr (fd, ext') \<and> max_context_word_dim self = Some m
     \<and> i < length batch \<longrightarrow>
     fd_context_len fd ! i = sum_list (map length (para_context (batch ! i)))
   \<and> (\<forall>cw. fd_context_words fd = Some cw \<longrightarrow>
          i < length cw \<and> fd_context_len fd ! i \<le> length (cw ! i)
          \<and> (\<forall>j. m \<le> j \<and> j < length (cw ! i) \<longrightarrow> cw ! i ! j = 0))
   \<and> (\<forall>cc. fd_context_chars fd = Some cc \<longrightarrow>
          i < length cc \<and> fd_context_len fd ! i \<le> length (cc ! i)
          \<and> (\<forall>j. m \<le> j \<and> j < length (cc ! i) \<longrightarrow> cc ! i ! j = replicate (max_char_dim self) 0))"
proof (intro impI)
  assume h: "encode pack self batch False ext = Inr (fd, ext') \<and> max_context_word_dim self = Some m
     \<and> i < length batch"
  obtain s g where ext: "ext = (s, g)" by (cases ext)
  obtain s' g' where ext': "ext' = (s', g')" by (cases ext')
  from h ext ext' have enc: "encode pack self batch False (s, g) = Inr (fd, s', g')"
    and m: "max_context_word_dim self = Some m" and i: "i < length batch" by simp_all
  from encode_Inr [OF enc] obtain n context_len dim qdim st where
    n: "padded_batch_size (batch_size self) (length batch) (\<lambda>b. BatchSizeMsg b (length batch)) = Inr n"
    and cl: "context_lengths self False batch = Inr (context_len, dim)"
    and loop: "for_enumerate (encode_doc self False) 0 batch
         \<lparr>placeholders = Map.empty, emb_state = s,
          question_words =
            (if word_embedder self = None then [] else replicate n (replicate qdim 0)),
          question_chars =
            (if char_emb self = None then []
             else replicate n (replicate qdim (replicate (max_char_dim self) 0))),
          context_words =
            (if word_embedder self = None then [] else replicate n (replicate dim 0)),
          context_chars =
            (if char_emb self = None then []
             else replicate n (replicate dim (replicate (max_char_dim self) 0)))\<rparr> = Inr st"
    and fcl: "fd_context_len fd = context_len"
    and fcw: "fd_context_words fd = (if word_embedder self = None then None else Some (context_words st))"
    and fcc: "fd_context_chars fd = (if char_emb self = None then None else Some (context_chars st))"
    by blast
  from padded_batch_size_Inr [OF n] i have "i < n" by simp
  from context_lengths_eval [OF cl] have
    cl_eq: "context_len = map (\<lambda>doc. sum_list (map length (para_context doc))) batch"
    and cl_le: "\<forall>x \<in> set context_len. x \<le> dim" by simp_all
  from cl_eq i have len_i: "context_len ! i = sum_list (map length (para_context (batch ! i)))"
    by simp
  from cl_eq i have "context_len ! i \<in> set context_len" by simp
  with cl_le have le_dim: "context_len ! i \<le> dim" by blast
  let ?ws = "slice_to (max_context_word_dim self)
               (truncate_context (sent_size_th self) 0 (para_context (batch ! i)) [])"
  have short: "length ?ws \<le> m" using m by (simp add: slice_to_def)
  note f = batch_loop_frame [OF loop]
  show "fd_context_len fd ! i = sum_list (map length (para_context (batch ! i)))
   \<and> (\<forall>cw. fd_context_words fd = Some cw \<longrightarrow>
          i < length cw \<and> fd_context_len fd ! i \<le> length (cw ! i)
          \<and> (\<forall>j. m \<le> j \<and> j < length (cw ! i) \<longrightarrow> cw ! i ! j = 0))
   \<and> (\<forall>cc. fd_context_chars fd = Some cc \<longrightarrow>
          i < length cc \<and> fd_context_len fd ! i \<le> length (cc ! i)
          \<and> (\<forall>j. m \<le> j \<and> j < length (cc ! i) \<longrightarrow> cc ! i ! j = replicate (max_char_dim self) 0))"
  proof (intro conjI allI impI)
    show "fd_context_len fd ! i = sum_list (map length (para_context (batch ! i)))"
      using fcl len_i by simp
  next
    fix cw assume "fd_context_words fd = Some cw"
    with fcw have emb: "word_embedder self \<noteq> None" and cw: "cw = context_words st"
      by (auto split: if_splits)
    from f emb have l1: "length cw = n" and l2: "\<forall>k. length (cw ! k) = length (replicate n (replicate dim (0::int)) ! k)"
      and z: "\<forall>j. length ?ws \<le> j \<longrightarrow> cw ! i ! j = replicate n (replicate dim (0::int)) ! i ! j"
      using i by (simp_all add: cw)
    from l2 \<open>i < n\<close> have row: "length (cw ! i) = dim" by simp
    show "i < length cw" using l1 \<open>i < n\<close> by simp
    show "fd_context_len fd ! i \<le> length (cw ! i)" using row fcl le_dim by simp
    fix j assume "m \<le> j \<and> j < length (cw ! i)"
    with short row z \<open>i < n\<close> show "cw ! i ! j = 0" by simp
  next
    fix cc assume "fd_context_chars fd = Some cc"
    with fcc have emb: "char_emb self \<noteq> None" and cc: "cc = context_chars st"
      by (auto split: if_splits)
    let ?z = "replicate n (replicate dim (replicate (max_char_dim self) (0::int)))"
    from f emb have l1: "length cc = n" and l2: "\<forall>k. length (cc ! k) = length (?z ! k)"
      and z: "\<forall>j. length ?ws \<le> j \<longrightarrow> cc ! i ! j = ?z ! i ! j"
      using i by (simp_all add: cc)
    from l2 \<open>i < n\<close> have row: "length (cc ! i) = dim" by simp
    show "i < length cc" using l1 \<open>i < n\<close> by simp
    show "fd_context_len fd ! i \<le> length (cc ! i)" using row fcl le_dim by simp
    fix j assume "m \<le> j \<and> j < length (cc ! i)"
    with short row z \<open>i < n\<close> show "cc ! i ! j = replicate (max_char_dim self) 0" by simp
  qed
qed

theorem evaluation_length_exceeds_filled_positions_witness:
  "\<exists>fd ext'.
      encode packed_by_length (plain_encoder\<lparr>max_context_word_dim := Some 3\<rparr>) [doc_of_answer None] False
        (0, first_draw) = Inr (fd, ext')
    \<and> fd_context_len fd ! 0 = sum_list (map length (para_context ([doc_of_answer None] ! 0)))
    \<and> fd_context_len fd = [10]
    \<and> fd_context_words fd = Some [[5, 7, 100, 0, 0, 0, 0, 0, 0, 0]]"
proof -
  let ?self = "plain_encoder\<lparr>max_context_word_dim := Some 3\<rparr>"
  let ?fd = "\<lparr>fd_context_len = [10], fd_question_len = [1],
              fd_context_words = Some [[5, 7, 100, 0, 0, 0, 0, 0, 0, 0]],
              fd_question_words = Some [[6]], fd_context_chars = None, fd_question_chars = None,
              fd_answer = AnswerStartsEnds
                 [[False, False, False, False, False, False, False, False, False, False]]
                 [[False, False, False, False, False, False, False, False, False, False]],
              fd_context_features = None, fd_question_features = None\<rparr> :: int feed"
  have "map_sum id fst (encode packed_by_length ?self [doc_of_answer None] False (0, first_draw))
          = Inr ?fd"
    by code_simp
  then obtain ext' where enc:
    "encode packed_by_length ?self [doc_of_answer None] False (0, first_draw) = Inr (?fd, ext')"
    by (cases "encode packed_by_length ?self [doc_of_answer None] False (0, first_draw)") auto
  have m: "max_context_word_dim ?self = Some 3" by simp
  have i: "(0::nat) < length [doc_of_answer None]" by simp
  note t = evaluation_length_exceeds_filled_positions
      [where pack = packed_by_length and self = ?self and batch = "[doc_of_answer None]"
         and ext = "(0, first_draw)" and fd = ?fd and ext' = ext' and m = 3 and i = 0,
       THEN mp, OF conjI [OF enc conjI [OF m i]]]
  from t have len: "fd_context_len ?fd ! 0 = sum_list (map length (para_context ([doc_of_answer None] ! 0)))"
    by (rule conjunct1)
  have rest: "fd_context_len ?fd = [10] \<and> fd_context_words ?fd = Some [[5, 7, 100, 0, 0, 0, 0, 0, 0, 0]]"
    by simp
  from enc len rest show ?thesis by blast
qed


section \<open>Placeholders of unknown words\<close>



section \<open>The cheating encoder\<close>










end
